theory Spec2Isabelle
  imports Main "HOL-Library.Word"
begin

unbundle bit_operations_syntax

section \<open>The xdb maker of ip2region (maker/golang/xdb/maker.go)\<close>

text \<open>
  The maker turns a list of text lines \<open>start|end|region\<close> into a binary file:
  a 256-byte header, a 256 x 256 vector index of 8-byte blocks, the region texts, and
  the segment index blocks. This theory embeds \<open>maker.go\<close>: the header, the segment
  loader, \<open>setVectorIndex\<close> and \<open>Start\<close>.
\<close>

subsection \<open>Machine types and constants\<close>

type_synonym byte = "8 word"
type_synonym uint16 = "16 word"
type_synonym uint32 = "32 word"

definition VersionNo :: nat where
  "VersionNo = 2"

definition HeaderInfoLength :: nat where
  "HeaderInfoLength = 256"

definition VectorIndexRows :: nat where
  "VectorIndexRows = 256"

definition VectorIndexCols :: nat where
  "VectorIndexCols = 256"

definition VectorIndexSize :: nat where
  "VectorIndexSize = 8"

definition VectorIndexLength :: nat where
  "VectorIndexLength = VectorIndexRows * VectorIndexCols * VectorIndexSize"

text \<open>
  The constant \<open>SegmentIndexBlockSize\<close> is declared outside \<open>maker.go\<close>.
  \<open>setVectorIndex\<close> adds it to the entry offset; the functions below that use it
  take its value as their first parameter \<open>bs\<close>, so that every result holds for
  whatever the constant is (the spec gives the entry size as 12).
\<close>

subsection \<open>Data\<close>

record Segment =
  StartIP :: uint32
  EndIP :: uint32
  Region :: string

text \<open>
  Modelled from the spec: the types \<open>SegmentIndexBlock\<close> and \<open>VectorIndexBlock\<close>
  are declared outside \<open>maker.go\<close>; \<open>Start\<close> builds the first from the four fields
  below (lines 284-289) and \<open>setVectorIndex\<close> reads and writes the two fields of the
  second. The fields of the index block carry the prefix \<open>ib\<close>, since a record of
  this theory cannot reuse the field names of \<open>Segment\<close>.
\<close>

record SegmentIndexBlock =
  ibStartIP :: uint32
  ibEndIP :: uint32
  DataLen :: uint16
  DataPtr :: uint32

record VectorIndexBlock =
  FirstPtr :: uint32
  LastPtr :: uint32

text \<open>
  The destination file: its bytes, the offset of the handle, and the sequence of
  \<open>Write\<close> calls issued on it, in program order, each with the offset it was issued at
  and the value it encoded. Offsets are \<open>int64\<close> in the source and never negative
  here; they are natural numbers in the model.
\<close>

datatype wevent =
    WHeader
  | WData nat string
  | WIndex nat SegmentIndexBlock
  | WVector nat nat VectorIndexBlock
  | WIndexPtr uint32 uint32

record File =
  content :: "byte list"
  offset :: nat
  writes :: "wevent list"

record Maker =
  srcHandle :: "string list"
  dstHandle :: File
  indexPolicy :: int
  segments :: "Segment list"
  regionPool :: "string \<rightharpoonup> uint32"
  vectorIndex :: "nat \<Rightarrow> nat \<Rightarrow> VectorIndexBlock"

datatype error =
    InvalidSegmentLine string
  | CheckStartIP string
  | CheckEndIP string
  | StartGreaterThanEnd string string
  | EmptyRegionInfo string
  | DiscontinuousSegment uint32 uint32 string
  | LoadSegments error
  | EmptySegmentList
  | TooLongRegion string
  | MissingPtrCache string
  | EmptyRegion Segment

subsection \<open>The vector index\<close>

text \<open>
  \<open>setVectorIndex\<close> (lines 210-218). The two indices are \<open>(ip>>24)&0xFF\<close> and
  \<open>(ip>>16)&0xFF\<close>, both below 256, so the array access never leaves the array.
\<close>

definition viRow :: "uint32 \<Rightarrow> nat" where
  "viRow ip = unat (drop_bit 24 ip AND 0xFF)"

definition viCol :: "uint32 \<Rightarrow> nat" where
  "viCol ip = unat (drop_bit 16 ip AND 0xFF)"

definition setVectorIndex :: "uint32 \<Rightarrow> uint32 \<Rightarrow> uint32 \<Rightarrow> Maker \<Rightarrow> Maker" where
  "setVectorIndex bs ip ptr m =
     (let viBlock = vectorIndex m (viRow ip) (viCol ip);
          viBlock' =
            (if FirstPtr viBlock = 0
             then viBlock\<lparr>FirstPtr := ptr, LastPtr := ptr + bs\<rparr>
             else viBlock\<lparr>LastPtr := ptr + bs\<rparr>)
      in m\<lparr>vectorIndex :=
           (vectorIndex m)(viRow ip := (vectorIndex m (viRow ip))(viCol ip := viBlock'))\<rparr>)"

subsection \<open>Little-endian encoding\<close>

text \<open>
  \<open>binary.LittleEndian.PutUint16\<close> and \<open>PutUint32\<close> of the Go library, and the
  readers \<open>Uint16\<close> and \<open>Uint32\<close> that decode what they wrote. The readers are
  defined on slices of exactly the width read.
\<close>

definition PutUint16 :: "uint16 \<Rightarrow> byte list" where
  "PutUint16 v = [ucast v, ucast (drop_bit 8 v)]"

definition PutUint32 :: "uint32 \<Rightarrow> byte list" where
  "PutUint32 v = [ucast v, ucast (drop_bit 8 v), ucast (drop_bit 16 v), ucast (drop_bit 24 v)]"

fun Uint16 :: "byte list \<Rightarrow> uint16 option" where
  "Uint16 [b0, b1] = Some (ucast b0 OR push_bit 8 (ucast b1))"
| "Uint16 _ = None"

fun Uint32 :: "byte list \<Rightarrow> uint32 option" where
  "Uint32 [b0, b1, b2, b3] =
     Some (ucast b0 OR push_bit 8 (ucast b1) OR push_bit 16 (ucast b2) OR push_bit 24 (ucast b3))"
| "Uint32 _ = None"

text \<open>
  Modelled from the spec: the two \<open>Encode\<close> methods are declared outside
  \<open>maker.go\<close>. A fine-index entry is its four fields in the order start address,
  end address, text length, text offset, little-endian, of 4, 4, 2 and 4 bytes; a
  coarse cell is the 4-byte first offset and the 4-byte last offset.
\<close>

definition SegmentIndexBlock_Encode :: "SegmentIndexBlock \<Rightarrow> byte list" where
  "SegmentIndexBlock_Encode s =
     PutUint32 (ibStartIP s) @ PutUint32 (ibEndIP s) @ PutUint16 (DataLen s) @ PutUint32 (DataPtr s)"

definition VectorIndexBlock_Encode :: "VectorIndexBlock \<Rightarrow> byte list" where
  "VectorIndexBlock_Encode c = PutUint32 (FirstPtr c) @ PutUint32 (LastPtr c)"

subsection \<open>The destination file\<close>

text \<open>
  \<open>Seek(off, 0)\<close> sets the offset, \<open>Seek(0, 1)\<close> returns it. \<open>Write\<close> stores the
  bytes at the offset and advances it; bytes between the old end of the file and a
  later offset read as zero; a write of no bytes leaves the content as it is. The file
  lives in memory: \<open>Seek\<close> and \<open>Write\<close> do not fail here, so the returns of the
  source that only forward an I/O failure have no branch in the model.
\<close>

definition fseek :: "nat \<Rightarrow> File \<Rightarrow> File" where
  "fseek off f = f\<lparr>offset := off\<rparr>"

definition store :: "nat \<Rightarrow> byte list \<Rightarrow> byte list \<Rightarrow> byte list" where
  "store off bs c =
     (let c0 = c @ replicate (off - length c) 0
      in take off c0 @ bs @ drop (off + length bs) c0)"

definition fwrite :: "wevent \<Rightarrow> byte list \<Rightarrow> File \<Rightarrow> File" where
  "fwrite ev bs f =
     (if bs = [] then f\<lparr>writes := writes f @ [ev]\<rparr>
      else f\<lparr>content := store (offset f) bs (content f),
             offset := offset f + length bs,
             writes := writes f @ [ev]\<rparr>)"

subsection \<open>NewMaker and the header\<close>

text \<open>
  \<open>NewMaker\<close> (lines 79-101): the source handle is the list of lines the scanner
  will yield, the destination is opened with \<open>O_TRUNC\<close> and so is empty.
\<close>

definition NewMaker :: "int \<Rightarrow> string list \<Rightarrow> Maker" where
  "NewMaker policy src =
     \<lparr>srcHandle = src,
      dstHandle = \<lparr>content = [], offset = 0, writes = []\<rparr>,
      indexPolicy = policy,
      segments = [],
      regionPool = Map.empty,
      vectorIndex = (\<lambda>i j. \<lparr>FirstPtr = 0, LastPtr = 0\<rparr>)\<rparr>"

text \<open>
  \<open>initDbHeader\<close> (lines 103-135); \<open>now\<close> is \<open>time.Now().Unix()\<close>.
\<close>

definition header :: "int \<Rightarrow> int \<Rightarrow> byte list" where
  "header policy now =
     PutUint16 (of_nat VersionNo) @ PutUint16 (word_of_int policy) @ PutUint32 (word_of_int now)
       @ PutUint32 0 @ PutUint32 0 @ replicate 240 0"

definition initDbHeader :: "int \<Rightarrow> Maker \<Rightarrow> Maker" where
  "initDbHeader now m =
     m\<lparr>dstHandle := fwrite WHeader (header (indexPolicy m) now) (fseek 0 (dstHandle m))\<rparr>"

subsection \<open>The segment loader\<close>

text \<open>
  \<open>strings.TrimSuffix\<close>, \<open>strings.TrimSpace\<close> and \<open>strings.SplitN\<close> of the Go
  library, on byte strings. \<open>TrimSpace\<close> is modelled for the white space of one byte
  (tab, line feed, vertical tab, form feed, carriage return, space).
\<close>

definition TrimSuffix :: "string \<Rightarrow> string \<Rightarrow> string" where
  "TrimSuffix s suffix =
     (if length suffix \<le> length s \<and> drop (length s - length suffix) s = suffix
      then take (length s - length suffix) s else s)"

definition isSpace :: "char \<Rightarrow> bool" where
  "isSpace c = (c \<in> {CHR 0x09, CHR 0x0A, CHR 0x0B, CHR 0x0C, CHR 0x0D, CHR 0x20})"

definition TrimSpace :: "string \<Rightarrow> string" where
  "TrimSpace s = rev (dropWhile isSpace (rev (dropWhile isSpace s)))"

fun SplitN :: "string \<Rightarrow> char \<Rightarrow> nat \<Rightarrow> string list" where
  "SplitN s sep 0 = []"
| "SplitN s sep (Suc 0) = [s]"
| "SplitN s sep (Suc (Suc n)) =
     (if sep \<in> set s
      then takeWhile (\<lambda>c. c \<noteq> sep) s # SplitN (tl (dropWhile (\<lambda>c. c \<noteq> sep) s)) sep (Suc n)
      else [s])"

text \<open>
  Modelled from the spec: \<open>CheckIP\<close> is declared outside \<open>maker.go\<close>. It is the
  strict dotted-quad parser of the spec: four decimal fields separated by dots, each
  non-empty, of digits only and at most 255, the first field the top byte.
\<close>

definition digit :: "char \<Rightarrow> nat option" where
  "digit c = (let n = (of_char c :: nat) in if 48 \<le> n \<and> n \<le> 57 then Some (n - 48) else None)"

fun decimal :: "string \<Rightarrow> nat \<Rightarrow> nat option" where
  "decimal [] acc = Some acc"
| "decimal (c # cs) acc = (case digit c of None \<Rightarrow> None | Some d \<Rightarrow> decimal cs (10 * acc + d))"

definition octet :: "string \<Rightarrow> nat option" where
  "octet s = (if s = [] then None
              else case decimal s 0 of None \<Rightarrow> None | Some v \<Rightarrow> if v \<le> 255 then Some v else None)"

fun fields :: "char \<Rightarrow> string \<Rightarrow> string list" where
  "fields sep [] = [[]]"
| "fields sep (c # cs) =
     (if c = sep then [] # fields sep cs
      else (case fields sep cs of [] \<Rightarrow> [[c]] | f # fs \<Rightarrow> (c # f) # fs))"

definition CheckIP :: "string \<Rightarrow> uint32 option" where
  "CheckIP ip =
     (case map octet (fields (CHR ''.'') ip) of
        [Some a, Some b, Some c, Some d] \<Rightarrow>
          Some (of_nat (a * 16777216 + b * 65536 + c * 256 + d))
      | _ \<Rightarrow> None)"

text \<open>
  \<open>loadSegments\<close> (lines 137-190). The loop runs over the lines of the source;
  \<open>last0\<close> is the source's pointer \<open>last\<close> to the segment accepted before,
  \<open>None\<close> for \<open>nil\<close>. The
  segments appended before a failing line stay in the maker, as in the source.
\<close>

fun loadLines :: "string list \<Rightarrow> Segment option \<Rightarrow> Maker \<Rightarrow> error option \<times> Maker" where
  "loadLines [] last0 m = (None, m)"
| "loadLines (t # ts) last0 m =
     (let l = TrimSpace (TrimSuffix t [CHR 0x0A]) in
      case SplitN l (CHR ''|'') 3 of
        [ps0, ps1, ps2] \<Rightarrow>
          (case CheckIP ps0 of
             None \<Rightarrow> (Some (CheckStartIP ps0), m)
           | Some sip \<Rightarrow>
          (case CheckIP ps1 of
             None \<Rightarrow> (Some (CheckEndIP ps1), m)
           | Some eip \<Rightarrow>
               if sip > eip then (Some (StartGreaterThanEnd ps0 ps1), m)
               else if length ps2 < 1 then (Some (EmptyRegionInfo l), m)
               else
                 let seg = \<lparr>StartIP = sip, EndIP = eip, Region = ps2\<rparr> in
                 if (case last0 of None \<Rightarrow> False | Some la \<Rightarrow> EndIP la + 1 \<noteq> StartIP seg)
                 then (Some (DiscontinuousSegment sip eip ps0), m)
                 else loadLines ts (Some seg) (m\<lparr>segments := segments m @ [seg]\<rparr>)))
      | _ \<Rightarrow> (Some (InvalidSegmentLine l), m))"

definition loadSegments :: "Maker \<Rightarrow> error option \<times> Maker" where
  "loadSegments m = loadLines (srcHandle m) None m"

text \<open>\<open>Init\<close> (lines 193-207).\<close>

definition Init :: "int \<Rightarrow> Maker \<Rightarrow> error option \<times> Maker" where
  "Init now m =
     (case loadSegments (initDbHeader now m) of
        (Some e, m') \<Rightarrow> (Some (LoadSegments e), m')
      | (None, m') \<Rightarrow> (None, m'))"

subsection \<open>Start\<close>

text \<open>
  Modelled from the spec: \<open>Split\<close> is declared outside \<open>maker.go\<close>. It is the
  range splitter of the spec: it cuts a range into the ordered, gapless pieces that
  each lie in one cell of the coarse grid, the cell of an address being its top two
  bytes. Every piece carries the region of the range.
\<close>

definition cell :: "uint32 \<Rightarrow> nat" where
  "cell ip = unat ip div 65536"

definition Split :: "Segment \<Rightarrow> Segment list" where
  "Split seg =
     map (\<lambda>c. \<lparr>StartIP = (if c = cell (StartIP seg) then StartIP seg else of_nat (c * 65536)),
               EndIP = (if c = cell (EndIP seg) then EndIP seg else of_nat (c * 65536 + 65535)),
               Region = Region seg\<rparr>)
       [cell (StartIP seg) ..< Suc (cell (EndIP seg))]"

text \<open>
  The first loop of \<open>Start\<close> (lines 233-259): the region of every segment is looked
  up in the pool and, when it is new, checked for its length, written at the current
  offset and entered in the pool under \<open>uint32(pos)\<close>.
\<close>

fun writeRegions :: "Segment list \<Rightarrow> Maker \<Rightarrow> error option \<times> Maker" where
  "writeRegions [] m = (None, m)"
| "writeRegions (seg # segs) m =
     (case regionPool m (Region seg) of
        Some ptr \<Rightarrow> writeRegions segs m
      | None \<Rightarrow>
          let region = (map of_char (Region seg) :: byte list) in
          if length region > 0xFFFF then (Some (TooLongRegion (Region seg)), m)
          else
            let pos = offset (dstHandle m);
                f = fwrite (WData pos (Region seg)) region (dstHandle m)
            in writeRegions segs
                 (m\<lparr>dstHandle := f, regionPool := (regionPool m)(Region seg \<mapsto> of_nat pos)\<rparr>))"

text \<open>
  The second loop (lines 264-307) and its local variables \<open>counter\<close>,
  \<open>startIndexPtr\<close> and \<open>endIndexPtr\<close>. \<open>writeSegList\<close> is the inner loop over the
  pieces of one segment, \<open>writeIndex\<close> the outer loop over the segments.
\<close>

record IndexPass =
  maker :: Maker
  counter :: nat
  startIndexPtr :: int
  endIndexPtr :: int

fun writeSegList :: "uint32 \<Rightarrow> nat \<Rightarrow> uint32 \<Rightarrow> Segment list \<Rightarrow> IndexPass \<Rightarrow> IndexPass" where
  "writeSegList bs dataLen dataPtr [] st = st"
| "writeSegList bs dataLen dataPtr (s # segList) st =
     (let m = maker st;
          pos = offset (dstHandle m);
          sIndex = \<lparr>ibStartIP = StartIP s, ibEndIP = EndIP s,
                    DataLen = of_nat dataLen, DataPtr = dataPtr\<rparr>;
          f = fwrite (WIndex pos sIndex) (SegmentIndexBlock_Encode sIndex) (dstHandle m);
          m' = setVectorIndex bs (StartIP s) (of_nat pos) (m\<lparr>dstHandle := f\<rparr>)
      in writeSegList bs dataLen dataPtr segList
           \<lparr>maker = m', counter = counter st + 1,
            startIndexPtr = (if startIndexPtr st = - 1 then int pos else startIndexPtr st),
            endIndexPtr = int pos\<rparr>)"

fun writeIndex :: "uint32 \<Rightarrow> Segment list \<Rightarrow> IndexPass \<Rightarrow> error option \<times> IndexPass" where
  "writeIndex bs [] st = (None, st)"
| "writeIndex bs (seg # segs) st =
     (case regionPool (maker st) (Region seg) of
        None \<Rightarrow> (Some (MissingPtrCache (Region seg)), st)
      | Some dataPtr \<Rightarrow>
          let dataLen = length (Region seg) in
          if dataLen < 1 then (Some (EmptyRegion seg), st)
          else writeIndex bs segs (writeSegList bs dataLen dataPtr (Split seg) st))"

text \<open>The two loops that write the vector index (lines 316-323).\<close>

definition writeVectorRow :: "nat \<Rightarrow> (nat \<Rightarrow> VectorIndexBlock) \<Rightarrow> File \<Rightarrow> File" where
  "writeVectorRow i l f =
     foldl (\<lambda>f j. fwrite (WVector i j (l j)) (VectorIndexBlock_Encode (l j)) f) f
       [0..<VectorIndexRows]"

definition writeVectorIndex :: "(nat \<Rightarrow> nat \<Rightarrow> VectorIndexBlock) \<Rightarrow> File \<Rightarrow> File" where
  "writeVectorIndex vi f = foldl (\<lambda>f i. writeVectorRow i (vi i) f) f [0..<VectorIndexCols]"

text \<open>\<open>Start\<close> (lines 221-344). The maker is returned with the error, since what was
  written before a failure stays written.\<close>

definition Start :: "uint32 \<Rightarrow> Maker \<Rightarrow> error option \<times> Maker" where
  "Start bs m =
     (if length (segments m) < 1 then (Some EmptySegmentList, m)
      else
        let m1 = m\<lparr>dstHandle := fseek (HeaderInfoLength + VectorIndexLength) (dstHandle m)\<rparr> in
        case writeRegions (segments m1) m1 of
          (Some e, m2) \<Rightarrow> (Some e, m2)
        | (None, m2) \<Rightarrow>
            (case writeIndex bs (segments m2)
                    \<lparr>maker = m2, counter = 0, startIndexPtr = - 1, endIndexPtr = - 1\<rparr> of
               (Some e, st) \<Rightarrow> (Some e, maker st)
             | (None, st) \<Rightarrow>
                 let m3 = maker st;
                     f1 = writeVectorIndex (vectorIndex m3) (fseek HeaderInfoLength (dstHandle m3));
                     sp = (word_of_int (startIndexPtr st) :: uint32);
                     ep = (word_of_int (endIndexPtr st) :: uint32);
                     buff = PutUint32 sp @ PutUint32 ep;
                     f2 = fwrite (WIndexPtr sp ep) buff (fseek 8 f1)
                 in (None, m3\<lparr>dstHandle := f2\<rparr>)))"

subsection \<open>Predicates on the loaded segments\<close>

text \<open>
  \<open>chain\<close> is the contiguity the loader checks, in the 32-bit arithmetic of the
  source: the end of each segment plus one is the start of the next. \<open>ascending\<close>
  says that every start address is greater than the one before, \<open>wellformed\<close> that
  a segment has its start at most its end and a region of at least one byte.
\<close>

fun chain :: "Segment option \<Rightarrow> Segment list \<Rightarrow> bool" where
  "chain prev [] = True"
| "chain prev (s # ss) =
     ((case prev of None \<Rightarrow> True | Some p \<Rightarrow> EndIP p + 1 = StartIP s) \<and> chain (Some s) ss)"

fun ascending :: "Segment list \<Rightarrow> bool" where
  "ascending (a # b # ss) = (StartIP a < StartIP b \<and> ascending (b # ss))"
| "ascending _ = True"

definition wellformed :: "Segment \<Rightarrow> bool" where
  "wellformed s = (StartIP s \<le> EndIP s \<and> Region s \<noteq> [])"

text \<open>The writes of a file by kind: the region texts and the index blocks, each with
  the offset it was written at.\<close>

fun dataWrites :: "wevent list \<Rightarrow> (nat \<times> string) list" where
  "dataWrites [] = []"
| "dataWrites (WData p r # ws) = (p, r) # dataWrites ws"
| "dataWrites (_ # ws) = dataWrites ws"

fun indexWrites :: "wevent list \<Rightarrow> (nat \<times> SegmentIndexBlock) list" where
  "indexWrites [] = []"
| "indexWrites (WIndex p b # ws) = (p, b) # indexWrites ws"
| "indexWrites (_ # ws) = indexWrites ws"

fun vectorWrites :: "wevent list \<Rightarrow> (nat \<times> nat \<times> VectorIndexBlock) list" where
  "vectorWrites [] = []"
| "vectorWrites (WVector i j c # ws) = (i, j, c) # vectorWrites ws"
| "vectorWrites (_ # ws) = vectorWrites ws"

subsection \<open>The passes of Start as lists\<close>

text \<open>
  What the loops of \<open>Start\<close> write, as lists, for the proofs below. \<open>regionWrites\<close>
  follows the first loop from the pool \<open>P\<close> and the offset \<open>off\<close>: the offsets and
  texts written; \<open>poolAfter\<close> and \<open>offAfter\<close> are the pool and the offset it ends
  with. \<open>blocksOf\<close> gives the index blocks of one segment, \<open>place\<close> lays blocks out
  from an offset, 14 bytes each (the length of \<open>SegmentIndexBlock_Encode\<close>), and
  \<open>gridRecord\<close> is the update of \<open>setVectorIndex\<close> on the vector index alone.
\<close>

fun regionWrites :: "(string \<rightharpoonup> uint32) \<Rightarrow> nat \<Rightarrow> Segment list \<Rightarrow> (nat \<times> string) list" where
  "regionWrites P off [] = []"
| "regionWrites P off (s # ss) =
     (case P (Region s) of
        Some ptr \<Rightarrow> regionWrites P off ss
      | None \<Rightarrow> (off, Region s)
          # regionWrites (P(Region s \<mapsto> of_nat off)) (off + length (Region s)) ss)"

fun poolAfter :: "(string \<rightharpoonup> uint32) \<Rightarrow> nat \<Rightarrow> Segment list \<Rightarrow> (string \<rightharpoonup> uint32)" where
  "poolAfter P off [] = P"
| "poolAfter P off (s # ss) =
     (case P (Region s) of
        Some ptr \<Rightarrow> poolAfter P off ss
      | None \<Rightarrow> poolAfter (P(Region s \<mapsto> of_nat off)) (off + length (Region s)) ss)"

fun offAfter :: "(string \<rightharpoonup> uint32) \<Rightarrow> nat \<Rightarrow> Segment list \<Rightarrow> nat" where
  "offAfter P off [] = off"
| "offAfter P off (s # ss) =
     (case P (Region s) of
        Some ptr \<Rightarrow> offAfter P off ss
      | None \<Rightarrow> offAfter (P(Region s \<mapsto> of_nat off)) (off + length (Region s)) ss)"

definition blocksOf :: "(string \<rightharpoonup> uint32) \<Rightarrow> Segment \<Rightarrow> SegmentIndexBlock list" where
  "blocksOf P seg =
     map (\<lambda>s. \<lparr>ibStartIP = StartIP s, ibEndIP = EndIP s,
               DataLen = of_nat (length (Region seg)), DataPtr = the (P (Region seg))\<rparr>)
       (Split seg)"

fun place :: "nat \<Rightarrow> SegmentIndexBlock list \<Rightarrow> (nat \<times> SegmentIndexBlock) list" where
  "place off [] = []"
| "place off (b # bl) = (off, b) # place (off + 14) bl"

definition gridRecord ::
  "uint32 \<Rightarrow> (nat \<Rightarrow> nat \<Rightarrow> VectorIndexBlock) \<Rightarrow> nat \<times> SegmentIndexBlock
     \<Rightarrow> (nat \<Rightarrow> nat \<Rightarrow> VectorIndexBlock)" where
  "gridRecord bs vi e =
     (let i = viRow (ibStartIP (snd e)); j = viCol (ibStartIP (snd e)); ptr = of_nat (fst e) in
      vi(i := (vi i)(j :=
        (if FirstPtr (vi i j) = 0 then \<lparr>FirstPtr = ptr, LastPtr = ptr + bs\<rparr>
         else \<lparr>FirstPtr = FirstPtr (vi i j), LastPtr = ptr + bs\<rparr>))))"

definition mkBlock :: "nat \<Rightarrow> uint32 \<Rightarrow> Segment \<Rightarrow> SegmentIndexBlock" where
  "mkBlock n ptr s = \<lparr>ibStartIP = StartIP s, ibEndIP = EndIP s, DataLen = of_nat n, DataPtr = ptr\<rparr>"

text \<open>The bytes and the writes of the vector index, row by row.\<close>

definition rowBytes :: "(nat \<Rightarrow> VectorIndexBlock) \<Rightarrow> byte list" where
  "rowBytes l = concat (map (\<lambda>j. VectorIndexBlock_Encode (l j)) [0..<256])"

definition gridBytes :: "(nat \<Rightarrow> nat \<Rightarrow> VectorIndexBlock) \<Rightarrow> byte list" where
  "gridBytes vi = concat (map (\<lambda>i. rowBytes (vi i)) [0..<256])"

definition gridEvents :: "(nat \<Rightarrow> nat \<Rightarrow> VectorIndexBlock) \<Rightarrow> wevent list" where
  "gridEvents vi = concat (map (\<lambda>i. map (\<lambda>j. WVector i j (vi i j)) [0..<256]) [0..<256])"

text \<open>An index block lies in the cell of an address when its start and its end have
  the row and the column of the address.\<close>

definition inCellOf :: "uint32 \<Rightarrow> SegmentIndexBlock \<Rightarrow> bool" where
  "inCellOf ip b =
     (viRow (ibStartIP b) = viRow ip \<and> viCol (ibStartIP b) = viCol ip
      \<and> viRow (ibEndIP b) = viRow ip \<and> viCol (ibEndIP b) = viCol ip)"

text \<open>An index block written at an offset is recorded in the cell of its start
  address (line 297).\<close>

definition touches :: "nat \<Rightarrow> nat \<Rightarrow> nat \<times> SegmentIndexBlock \<Rightarrow> bool" where
  "touches i j e = (viRow (ibStartIP (snd e)) = i \<and> viCol (ibStartIP (snd e)) = j)"

subsection \<open>An example source\<close>

text \<open>Three lines: the first and the third share their region, and the third range
  spans two cells of the vector index.\<close>

definition exampleSource :: "string list" where
  "exampleSource =
     [''1.0.0.0|1.0.255.255|CN'', ''1.1.0.0|1.1.0.255|US'', ''1.1.1.0|1.2.255.255|CN'']"

text \<open>A source of 4681 equal lines, each the whole address space. The loader accepts
  it, since 255.255.255.255 + 1 wraps to 0.0.0.0; its index passes the 4 GiB mark.\<close>

definition wrapLine :: string where
  "wrapLine = ''0.0.0.0|255.255.255.255|A''"

definition wrapSegment :: Segment where
  "wrapSegment = \<lparr>StartIP = 0, EndIP = 4294967295, Region = ''A''\<rparr>"

definition bigSource :: "string list" where
  "bigSource = replicate 4681 wrapLine"

text \<open>Two lines: the last address alone, then all the addresses before it. The loader
  accepts the second line after the first, since 255.255.255.255 + 1 wraps to 0.0.0.0.\<close>

definition wrapSource :: "string list" where
  "wrapSource = [''255.255.255.255|255.255.255.255|A'', ''0.0.0.0|255.255.255.254|B'']"

section \<open>Properties\<close>

subsection \<open>Little-endian encoding\<close>

lemma Uint32_PutUint32: "Uint32 (PutUint32 w) = Some w"
proof -
  have "ucast (ucast w :: byte) OR push_bit 8 (ucast (ucast (drop_bit 8 w) :: byte))
          OR push_bit 16 (ucast (ucast (drop_bit 16 w) :: byte))
          OR push_bit 24 (ucast (ucast (drop_bit 24 w) :: byte)) = w"
  proof (rule bit_word_eqI)
    fix n assume "n < LENGTH(32)"
    then consider "n < 8" | "8 \<le> n" "n < 16" | "16 \<le> n" "n < 24" | "24 \<le> n" "n < 32"
      by fastforce
    then show "bit (ucast (ucast w :: byte) OR push_bit 8 (ucast (ucast (drop_bit 8 w) :: byte))
          OR push_bit 16 (ucast (ucast (drop_bit 16 w) :: byte))
          OR push_bit 24 (ucast (ucast (drop_bit 24 w) :: byte)) :: uint32) n = bit w n"
      by cases (auto simp add: bit_simps)
  qed
  then show ?thesis by (simp add: PutUint32_def)
qed

lemma Uint16_PutUint16: "Uint16 (PutUint16 w) = Some w"
proof -
  have "ucast (ucast w :: byte) OR push_bit 8 (ucast (ucast (drop_bit 8 w) :: byte)) = w"
    by (rule bit_word_eqI) (auto simp add: bit_simps)
  then show ?thesis by (simp add: PutUint16_def)
qed

lemma length_PutUint32 [simp]: "length (PutUint32 w) = 4"
  by (simp add: PutUint32_def)

lemma length_PutUint16 [simp]: "length (PutUint16 w) = 2"
  by (simp add: PutUint16_def)

subsection \<open>The vector index accumulator\<close>

lemma setVectorIndex_cell:
  "vectorIndex (setVectorIndex bs ip ptr m) i j =
     (if i = viRow ip \<and> j = viCol ip
      then (if FirstPtr (vectorIndex m i j) = 0
            then (vectorIndex m i j)\<lparr>FirstPtr := ptr, LastPtr := ptr + bs\<rparr>
            else (vectorIndex m i j)\<lparr>LastPtr := ptr + bs\<rparr>)
      else vectorIndex m i j)"
  by (simp add: setVectorIndex_def Let_def)

lemma setVectorIndex_frame [simp]:
  "dstHandle (setVectorIndex bs ip ptr m) = dstHandle m"
  "regionPool (setVectorIndex bs ip ptr m) = regionPool m"
  "segments (setVectorIndex bs ip ptr m) = segments m"
  "indexPolicy (setVectorIndex bs ip ptr m) = indexPolicy m"
  "srcHandle (setVectorIndex bs ip ptr m) = srcHandle m"
  by (simp_all add: setVectorIndex_def Let_def)

text \<open>
  C6. A call \<open>setVectorIndex ip ptr\<close> looks at the block in row \<open>(ip>>24)&0xFF\<close> and
  column \<open>(ip>>16)&0xFF\<close>. When its first pointer is the zero sentinel, the block
  becomes \<open>(ptr, ptr + SegmentIndexBlockSize)\<close>; otherwise the first pointer stays
  and the last pointer becomes \<open>ptr + SegmentIndexBlockSize\<close>. Every other block of
  the vector index is left as it was. The statement holds for every value \<open>bs\<close> of
  the size constant, 12 in particular.
\<close>

theorem setVectorIndex_record:
  "vectorIndex (setVectorIndex bs ip ptr m) (viRow ip) (viCol ip) =
     (if FirstPtr (vectorIndex m (viRow ip) (viCol ip)) = 0
      then \<lparr>FirstPtr = ptr, LastPtr = ptr + bs\<rparr>
      else \<lparr>FirstPtr = FirstPtr (vectorIndex m (viRow ip) (viCol ip)), LastPtr = ptr + bs\<rparr>)
   \<and> (\<forall>i j. (i, j) \<noteq> (viRow ip, viCol ip) \<longrightarrow>
         vectorIndex (setVectorIndex bs ip ptr m) i j = vectorIndex m i j)"
  by (auto simp: setVectorIndex_def Let_def)

theorem setVectorIndex_record_witness:
  "vectorIndex (setVectorIndex 12 0x01020304 1000 (NewMaker 0 [])) 1 2
       = \<lparr>FirstPtr = 1000, LastPtr = 1012\<rparr>
   \<and> vectorIndex (setVectorIndex 12 0x01020304 2000
                    (setVectorIndex 12 0x01020304 1000 (NewMaker 0 []))) 1 2
       = \<lparr>FirstPtr = 1000, LastPtr = 2012\<rparr>
   \<and> vectorIndex (setVectorIndex 12 0x01020304 1000 (NewMaker 0 [])) 1 3
       = \<lparr>FirstPtr = 0, LastPtr = 0\<rparr>"
proof -
  have r: "viRow 0x01020304 = 1" and c: "viCol 0x01020304 = 2"
    by (simp_all add: viRow_def viCol_def)
  show ?thesis
    using setVectorIndex_record [of 12 "0x01020304" 1000 "NewMaker 0 []"]
      setVectorIndex_record [of 12 "0x01020304" 2000
        "setVectorIndex 12 0x01020304 1000 (NewMaker 0 [])"]
    by (simp add: r c NewMaker_def)
qed

subsection \<open>The errors of Start\<close>

lemma writeRegions_error:
  "writeRegions segs m = (Some e, m') \<Longrightarrow> \<exists>r. e = TooLongRegion r"
  by (induction segs arbitrary: m) (auto simp: Let_def split: option.splits if_splits)

lemma writeIndex_error:
  "writeIndex bs segs st = (Some e, st') \<Longrightarrow>
     (\<exists>r. e = MissingPtrCache r) \<or> (\<exists>s. e = EmptyRegion s)"
  by (induction segs arbitrary: st) (auto simp: Let_def split: option.splits if_splits)

text \<open>
  C9. \<open>Start\<close> returns the error of the empty segment list exactly when the list of
  loaded segments is empty. The check is the first statement of \<open>Start\<close>: when it
  fails, the maker and its file are returned as they were, no byte written. With a
  list that is not empty, \<open>Start\<close> never returns this error.
\<close>

theorem Start_empty_segment_list:
  "(fst (Start bs m) = Some EmptySegmentList) = (segments m = [])
   \<and> (if segments m = [] then snd (Start bs m) = m
       else fst (Start bs m) \<noteq> Some EmptySegmentList)"
proof -
  have "fst (Start bs m) \<noteq> Some EmptySegmentList" if "segments m \<noteq> []"
  proof
    assume a: "fst (Start bs m) = Some EmptySegmentList"
    from that have l: "\<not> length (segments m) < 1" by (cases "segments m") auto
    show False using a l
      by (auto simp: Start_def Let_def split: prod.splits option.splits
          dest!: writeRegions_error writeIndex_error)
  qed
  moreover have "Start bs m = (Some EmptySegmentList, m)" if "segments m = []"
    using that by (simp add: Start_def)
  ultimately show ?thesis by auto
qed

theorem Start_empty_segment_list_witness:
  "fst (Start 12 (NewMaker 0 [])) = Some EmptySegmentList
   \<and> snd (Start 12 (NewMaker 0 [])) = NewMaker 0 []"
  using Start_empty_segment_list [of 12 "NewMaker 0 []"]
  by (simp add: NewMaker_def)

subsection \<open>The segment loader\<close>

lemmas load_defs =
  Init_def NewMaker_def initDbHeader_def loadSegments_def TrimSpace_def TrimSuffix_def
  isSpace_def CheckIP_def octet_def digit_def numeral_3_eq_3 Let_def

text \<open>
  C5. The contiguity check of the loader is \<open>last.EndIP+1 != seg.StartIP\<close> on
  \<open>uint32\<close>, so it is computed modulo 2^32. The two lines below are accepted: the
  first segment ends at 4294967295, the sum 4294967295 + 1 wraps to 0, and the second
  segment starts at 0. The accepted list is not ascending in its start addresses.
\<close>

theorem loadSegments_wraps:
  "fst (loadSegments (NewMaker 0 [''0.0.0.0|255.255.255.255|A'', ''0.0.0.0|0.0.0.1|B''])) = None
   \<and> segments (snd (loadSegments
        (NewMaker 0 [''0.0.0.0|255.255.255.255|A'', ''0.0.0.0|0.0.0.1|B''])))
       = [\<lparr>StartIP = 0, EndIP = 4294967295, Region = ''A''\<rparr>,
          \<lparr>StartIP = 0, EndIP = 1, Region = ''B''\<rparr>]
   \<and> (4294967295 :: uint32) + 1 = 0
   \<and> \<not> ascending (segments (snd (loadSegments
        (NewMaker 0 [''0.0.0.0|255.255.255.255|A'', ''0.0.0.0|0.0.0.1|B'']))))"
  by (simp add: load_defs)

text \<open>
  C4. The claim: the segments of every accepted input are gapless and strictly
  ascending. Evaluated on three lines of which the first ends at 255.255.255.255 and
  the second starts at 0.0.0.0: the loader accepts them (the chain of \<open>end + 1 = start\<close>
  holds modulo 2^32), and the start addresses of the result go down from 4294967040
  to 0.
\<close>

theorem loadSegments_not_ascending:
  "fst (Init 0 (NewMaker 0 [''255.255.255.0|255.255.255.255|X'', ''0.0.0.0|0.0.0.255|Y'',
                             ''0.0.1.0|0.0.1.255|Z''])) = None
   \<and> map StartIP (segments (snd (Init 0 (NewMaker 0 [''255.255.255.0|255.255.255.255|X'',
        ''0.0.0.0|0.0.0.255|Y'', ''0.0.1.0|0.0.1.255|Z''])))) = [4294967040, 0, 256]
   \<and> chain None (segments (snd (Init 0 (NewMaker 0 [''255.255.255.0|255.255.255.255|X'',
        ''0.0.0.0|0.0.0.255|Y'', ''0.0.1.0|0.0.1.255|Z'']))))
   \<and> \<not> ascending (segments (snd (Init 0 (NewMaker 0 [''255.255.255.0|255.255.255.255|X'',
        ''0.0.0.0|0.0.0.255|Y'', ''0.0.1.0|0.0.1.255|Z'']))))"
  by (simp add: load_defs)

subsection \<open>The bytes of the file\<close>

lemma length_store: "length (store off bs c) = max (length c) (off + length bs)"
  by (auto simp: store_def Let_def)

lemma take_store_below:
  "k \<le> off \<Longrightarrow> k \<le> length c \<Longrightarrow> take k (store off bs c) = take k c"
  by (simp add: store_def Let_def min_def)

lemma read_store: "take (length bs) (drop off (store off bs c)) = bs"
  by (simp add: store_def Let_def)

lemma drop_store_above:
  assumes "off + length bs \<le> k"
  shows "drop k (store off bs c) = drop k c"
proof -
  have "k + off - (min (length c) off + (off - length c)) = k"
    using assms by (simp add: min_def)
  then show ?thesis using assms by (simp add: store_def Let_def)
qed

lemma store_store:
  "store (off + length b1) b2 (store off b1 c) = store off (b1 @ b2) c"
proof -
  let ?c0 = "c @ replicate (off - length c) 0"
  have l0: "off \<le> length ?c0" by simp
  have l1: "length (store off b1 c) \<ge> off + length b1"
    by (simp add: length_store)
  have t: "take (off + length b1) (store off b1 c) = take off ?c0 @ b1"
    using l0 by (auto simp add: store_def Let_def min_def)
  have d: "drop (off + length b1 + length b2) (store off b1 c) = drop (off + length (b1 @ b2)) ?c0"
    using l0 by (simp add: store_def Let_def min_def add.assoc add.commute add.left_commute)
  have "store (off + length b1) b2 (store off b1 c)
      = take (off + length b1) (store off b1 c) @ b2 @ drop (off + length b1 + length b2) (store off b1 c)"
    using l1 by (simp add: store_def [of "off + length b1"] Let_def)
  also have "\<dots> = store off (b1 @ b2) c"
    unfolding t d by (simp add: store_def [of off "b1 @ b2"] Let_def)
  finally show ?thesis .
qed

lemma foldl_fwrite:
  assumes "\<forall>x\<in>set xs. enc x \<noteq> []"
  shows "foldl (\<lambda>f x. fwrite (ev x) (enc x) f) f xs =
     (if xs = [] then f
      else f\<lparr>content := store (offset f) (concat (map enc xs)) (content f),
             offset := offset f + length (concat (map enc xs)),
             writes := writes f @ map ev xs\<rparr>)"
  using assms
proof (induction xs arbitrary: f)
  case Nil
  then show ?case by simp
next
  case (Cons x xs)
  show ?case
  proof (cases "xs = []")
    case True
    then show ?thesis using Cons.prems by (simp add: fwrite_def)
  next
    case False
    then show ?thesis using Cons
      by (simp add: fwrite_def store_store add.assoc)
  qed
qed

subsection \<open>The first loop\<close>

lemma offAfter_ge: "off \<le> offAfter P off segs"
proof (induction segs arbitrary: P off)
  case Nil
  show ?case by simp
next
  case (Cons s ss)
  show ?case
  proof (cases "P (Region s)")
    case None
    have "off + length (Region s) \<le> offAfter (P(Region s \<mapsto> of_nat off)) (off + length (Region s)) ss"
      by (rule Cons.IH)
    with None show ?thesis by simp
  next
    case (Some v)
    with Cons.IH [of off P] show ?thesis by simp
  qed
qed

lemma regionWrites_bounds:
  "(p, r) \<in> set (regionWrites P off segs) \<Longrightarrow> off \<le> p \<and> p + length r \<le> offAfter P off segs"
proof (induction segs arbitrary: P off)
  case Nil
  then show ?case by simp
next
  case (Cons s ss)
  show ?case
  proof (cases "P (Region s)")
    case None
    define P' where "P' = P(Region s \<mapsto> of_nat off)"
    define o' where "o' = off + length (Region s)"
    have step: "regionWrites P off (s # ss) = (off, Region s) # regionWrites P' o' ss"
      "offAfter P off (s # ss) = offAfter P' o' ss"
      using None by (simp_all add: P'_def o'_def)
    from Cons.prems step
    consider "(p, r) = (off, Region s)" | "(p, r) \<in> set (regionWrites P' o' ss)" by auto
    then show ?thesis
    proof cases
      case 1
      with step offAfter_ge [of o' P' ss] show ?thesis by (simp add: o'_def)
    next
      case 2
      from Cons.IH [OF 2] step show ?thesis by (simp add: o'_def)
    qed
  next
    case (Some v)
    with Cons show ?thesis by simp
  qed
qed

lemma poolAfter_old: "P r = Some v \<Longrightarrow> poolAfter P off segs r = Some v"
proof (induction segs arbitrary: P off)
  case Nil
  then show ?case by simp
next
  case (Cons s ss)
  show ?case
  proof (cases "P (Region s)")
    case None
    define P' where "P' = P(Region s \<mapsto> of_nat off)"
    from None Cons.prems have "r \<noteq> Region s" by auto
    with Cons.prems have "P' r = Some v" by (simp add: P'_def)
    then have "poolAfter P' (off + length (Region s)) ss r = Some v" by (rule Cons.IH)
    with None show ?thesis by (simp add: P'_def)
  next
    case (Some w)
    with Cons show ?thesis by simp
  qed
qed

lemma poolAfter_new:
  "(p, r) \<in> set (regionWrites P off segs) \<Longrightarrow> poolAfter P off segs r = Some (of_nat p)"
proof (induction segs arbitrary: P off)
  case Nil
  then show ?case by simp
next
  case (Cons s ss)
  show ?case
  proof (cases "P (Region s)")
    case None
    define P' where "P' = P(Region s \<mapsto> of_nat off)"
    define o' where "o' = off + length (Region s)"
    have step: "regionWrites P off (s # ss) = (off, Region s) # regionWrites P' o' ss"
      "poolAfter P off (s # ss) = poolAfter P' o' ss"
      using None by (simp_all add: P'_def o'_def)
    from Cons.prems step
    consider "(p, r) = (off, Region s)" | "(p, r) \<in> set (regionWrites P' o' ss)" by auto
    then show ?thesis
    proof cases
      case 1
      then have "P' r = Some (of_nat p)" by (simp add: P'_def)
      then show ?thesis unfolding step by (rule poolAfter_old)
    next
      case 2
      then show ?thesis unfolding step by (rule Cons.IH)
    qed
  next
    case (Some v)
    with Cons show ?thesis by simp
  qed
qed

lemma regionWrites_regions:
  "snd ` set (regionWrites P off segs) = Region ` set segs - dom P"
  by (induction segs arbitrary: P off) (auto split: option.splits)

lemma regionWrites_distinct: "distinct (map snd (regionWrites P off segs))"
proof (induction segs arbitrary: P off)
  case Nil
  show ?case by simp
next
  case (Cons s ss)
  show ?case
  proof (cases "P (Region s)")
    case None
    have "Region s \<notin> snd ` set (regionWrites (P(Region s \<mapsto> of_nat off)) (off + length (Region s)) ss)"
      by (simp add: regionWrites_regions)
    with None Cons.IH show ?thesis by simp
  next
    case (Some v)
    with Cons.IH show ?thesis by simp
  qed
qed

lemma poolAfter_dom: "dom (poolAfter P off segs) = dom P \<union> Region ` set segs"
  by (induction segs arbitrary: P off) (auto split: option.splits)

lemma poolAfter_cases:
  "poolAfter P off segs r = Some v \<Longrightarrow>
     P r = Some v \<or> (\<exists>p. (p, r) \<in> set (regionWrites P off segs) \<and> v = of_nat p)"
proof (induction segs arbitrary: P off)
  case Nil
  then show ?case by simp
next
  case (Cons s ss)
  show ?case
  proof (cases "P (Region s)")
    case None
    define P' where "P' = P(Region s \<mapsto> of_nat off)"
    define o' where "o' = off + length (Region s)"
    have step: "regionWrites P off (s # ss) = (off, Region s) # regionWrites P' o' ss"
      "poolAfter P off (s # ss) = poolAfter P' o' ss"
      using None by (simp_all add: P'_def o'_def)
    from Cons.prems step have "poolAfter P' o' ss r = Some v" by simp
    from Cons.IH [OF this]
    consider "P' r = Some v" | p where "(p, r) \<in> set (regionWrites P' o' ss)" "v = of_nat p"
      by blast
    then show ?thesis
    proof cases
      case 1
      then show ?thesis unfolding step by (cases "r = Region s") (auto simp: P'_def)
    next
      case 2
      then show ?thesis unfolding step by auto
    qed
  next
    case (Some w)
    with Cons show ?thesis by simp
  qed
qed

lemma writeRegions_append:
  "writeRegions (xs @ ys) m =
     (case writeRegions xs m of (None, m1) \<Rightarrow> writeRegions ys m1 | (Some e, m1) \<Rightarrow> (Some e, m1))"
  by (induction xs arbitrary: m) (auto simp: Let_def split: option.splits)

lemma fwrite_fields [simp]:
  "offset (fwrite ev bs f) = offset f + length bs"
  "writes (fwrite ev bs f) = writes f @ [ev]"
  by (simp_all add: fwrite_def)

lemma fwrite_take:
  "k \<le> offset f \<Longrightarrow> k \<le> length (content f) \<Longrightarrow> take k (content (fwrite ev bs f)) = take k (content f)"
  by (simp add: fwrite_def take_store_below)

lemma fwrite_length: "length (content f) \<le> length (content (fwrite ev bs f))"
  by (simp add: fwrite_def length_store)

lemma writeRegions_ok:
  assumes "\<forall>s\<in>set segs. length (Region s) \<le> 65535"
  shows "\<exists>m'. writeRegions segs m = (None, m')
     \<and> regionPool m' = poolAfter (regionPool m) (offset (dstHandle m)) segs
     \<and> offset (dstHandle m') = offAfter (regionPool m) (offset (dstHandle m)) segs
     \<and> writes (dstHandle m') = writes (dstHandle m)
          @ map (\<lambda>(p, r). WData p r) (regionWrites (regionPool m) (offset (dstHandle m)) segs)
     \<and> vectorIndex m' = vectorIndex m \<and> segments m' = segments m
     \<and> length (content (dstHandle m)) \<le> length (content (dstHandle m'))
     \<and> (\<forall>k. k \<le> offset (dstHandle m) \<and> k \<le> length (content (dstHandle m))
           \<longrightarrow> take k (content (dstHandle m')) = take k (content (dstHandle m)))"
  using assms
proof (induction segs arbitrary: m)
  case Nil
  then show ?case by simp
next
  case (Cons s ss)
  then have short: "length (Region s) \<le> 65535" and rest: "\<forall>s\<in>set ss. length (Region s) \<le> 65535"
    by simp_all
  show ?case
  proof (cases "regionPool m (Region s)")
    case (Some v)
    with Cons.IH [OF rest, of m] show ?thesis by simp
  next
    case None
    let ?f = "fwrite (WData (offset (dstHandle m)) (Region s)) (map of_char (Region s)) (dstHandle m)"
    let ?m1 = "m\<lparr>dstHandle := ?f, regionPool := (regionPool m)(Region s \<mapsto> of_nat (offset (dstHandle m)))\<rparr>"
    from Cons.IH [OF rest, of ?m1] obtain m' where
      w: "writeRegions ss ?m1 = (None, m')"
      and p: "regionPool m' = poolAfter (regionPool ?m1) (offset (dstHandle ?m1)) ss"
      and o: "offset (dstHandle m') = offAfter (regionPool ?m1) (offset (dstHandle ?m1)) ss"
      and t: "writes (dstHandle m') = writes (dstHandle ?m1)
          @ map (\<lambda>(p, r). WData p r) (regionWrites (regionPool ?m1) (offset (dstHandle ?m1)) ss)"
      and v: "vectorIndex m' = vectorIndex ?m1" "segments m' = segments ?m1"
      and l: "length (content (dstHandle ?m1)) \<le> length (content (dstHandle m'))"
      and c: "\<forall>k. k \<le> offset (dstHandle ?m1) \<and> k \<le> length (content (dstHandle ?m1))
           \<longrightarrow> take k (content (dstHandle m')) = take k (content (dstHandle ?m1))"
      by blast
    have w': "writeRegions (s # ss) m = (None, m')"
      using None short w by (simp add: Let_def)
    have len: "length (content (dstHandle m)) \<le> length (content ?f)"
      by (rule fwrite_length)
    have frame: "take k (content (dstHandle m')) = take k (content (dstHandle m))"
      if "k \<le> offset (dstHandle m)" "k \<le> length (content (dstHandle m))" for k
    proof -
      have "take k (content (dstHandle m')) = take k (content ?f)"
        using c that len by simp
      also have "\<dots> = take k (content (dstHandle m))"
        using that by (rule fwrite_take)
      finally show ?thesis .
    qed
    show ?thesis
      using w' p o t v l len frame None by (simp add: Let_def)
  qed
qed

subsection \<open>The second loop\<close>

lemma length_SegmentIndexBlock_Encode [simp]: "length (SegmentIndexBlock_Encode b) = 14"
  by (simp add: SegmentIndexBlock_Encode_def)

lemma SegmentIndexBlock_Encode_nonempty [simp]: "SegmentIndexBlock_Encode b \<noteq> []"
  using length_SegmentIndexBlock_Encode [of b] by (metis length_0_conv zero_neq_numeral)

lemma length_VectorIndexBlock_Encode [simp]: "length (VectorIndexBlock_Encode c) = 8"
  by (simp add: VectorIndexBlock_Encode_def)

lemma vectorIndex_setVectorIndex:
  "vectorIndex (setVectorIndex bs (ibStartIP b) (of_nat p) m) = gridRecord bs (vectorIndex m) (p, b)"
proof -
  obtain a z where c: "vectorIndex m (viRow (ibStartIP b)) (viCol (ibStartIP b)) = \<lparr>FirstPtr = a, LastPtr = z\<rparr>"
    by (cases "vectorIndex m (viRow (ibStartIP b)) (viCol (ibStartIP b))") auto
  show ?thesis
    by (simp add: setVectorIndex_def gridRecord_def Let_def c)
qed

lemma place_append: "place off (xs @ ys) = place off xs @ place (off + 14 * length xs) ys"
  by (induction xs arbitrary: off) (simp_all add: add.assoc)

lemma place_snd [simp]: "map snd (place off bl) = bl"
  by (induction bl arbitrary: off) simp_all

lemma place_length [simp]: "length (place off bl) = length bl"
  by (induction bl arbitrary: off) simp_all

lemma place_nil [simp]: "(place off bl = []) = (bl = [])"
  by (cases bl) simp_all

lemma place_nth: "k < length bl \<Longrightarrow> place off bl ! k = (off + 14 * k, bl ! k)"
proof (induction bl arbitrary: off k)
  case Nil
  then show ?case by simp
next
  case (Cons b bl)
  then show ?case by (cases k) (simp_all add: add.assoc)
qed

lemma writeSegList_facts:
  fixes st :: IndexPass
  defines "f \<equiv> dstHandle (maker st)"
  shows "writes (dstHandle (maker (writeSegList bs n ptr pieces st)))
           = writes f @ map (\<lambda>(p, b). WIndex p b) (place (offset f) (map (mkBlock n ptr) pieces))
     \<and> offset (dstHandle (maker (writeSegList bs n ptr pieces st))) = offset f + 14 * length pieces
     \<and> vectorIndex (maker (writeSegList bs n ptr pieces st))
           = foldl (gridRecord bs) (vectorIndex (maker st)) (place (offset f) (map (mkBlock n ptr) pieces))
     \<and> regionPool (maker (writeSegList bs n ptr pieces st)) = regionPool (maker st)
     \<and> segments (maker (writeSegList bs n ptr pieces st)) = segments (maker st)
     \<and> counter (writeSegList bs n ptr pieces st) = counter st + length pieces
     \<and> startIndexPtr (writeSegList bs n ptr pieces st)
           = (if startIndexPtr st = - 1 \<and> pieces \<noteq> [] then int (offset f) else startIndexPtr st)
     \<and> endIndexPtr (writeSegList bs n ptr pieces st)
           = (if pieces = [] then endIndexPtr st else int (offset f + 14 * (length pieces - 1)))
     \<and> length (content f) \<le> length (content (dstHandle (maker (writeSegList bs n ptr pieces st))))
     \<and> (\<forall>k. k \<le> offset f \<and> k \<le> length (content f) \<longrightarrow>
           take k (content (dstHandle (maker (writeSegList bs n ptr pieces st)))) = take k (content f))"
  unfolding f_def
proof (induction pieces arbitrary: st)
  case Nil
  show ?case by simp
next
  case (Cons s pieces)
  define f where "f = dstHandle (maker st)"
  define b where "b = mkBlock n ptr s"
  define f1 where "f1 = fwrite (WIndex (offset f) b) (SegmentIndexBlock_Encode b) f"
  define st1 where "st1 = \<lparr>maker = setVectorIndex bs (StartIP s) (of_nat (offset f)) ((maker st)\<lparr>dstHandle := f1\<rparr>),
      counter = counter st + 1,
      startIndexPtr = (if startIndexPtr st = - 1 then int (offset f) else startIndexPtr st),
      endIndexPtr = int (offset f)\<rparr>"
  have step: "writeSegList bs n ptr (s # pieces) st = writeSegList bs n ptr pieces st1"
    by (simp add: Let_def st1_def f1_def b_def f_def mkBlock_def)
  have sb: "StartIP s = ibStartIP b" by (simp add: b_def mkBlock_def)
  have m1: "dstHandle (maker st1) = f1" "regionPool (maker st1) = regionPool (maker st)"
    "segments (maker st1) = segments (maker st)"
    "vectorIndex (maker st1) = gridRecord bs (vectorIndex (maker st)) (offset f, b)"
    "counter st1 = counter st + 1" "endIndexPtr st1 = int (offset f)"
    "startIndexPtr st1 = (if startIndexPtr st = - 1 then int (offset f) else startIndexPtr st)"
    by (simp_all add: st1_def sb vectorIndex_setVectorIndex)
  have f1: "offset f1 = offset f + 14" "writes f1 = writes f @ [WIndex (offset f) b]"
    "length (content f) \<le> length (content f1)"
    by (simp_all add: f1_def fwrite_length)
  have f1take: "take k (content f1) = take k (content f)" if "k \<le> offset f" "k \<le> length (content f)" for k
    unfolding f1_def using that by (rule fwrite_take)
  note IH = Cons.IH [of st1, unfolded m1 f1]
  have ne: "startIndexPtr st1 \<noteq> - 1 \<or> startIndexPtr st1 = int (offset f)"
    by (simp add: m1)
  have pos: "int (offset f) \<noteq> - 1" by simp
  show ?case
    unfolding step f_def [symmetric]
  proof (intro conjI allI impI)
    show "writes (dstHandle (maker (writeSegList bs n ptr pieces st1))) =
      writes f @ map (\<lambda>(p, b). WIndex p b) (place (offset f) (map (mkBlock n ptr) (s # pieces)))"
      using IH by (simp add: b_def)
    show "offset (dstHandle (maker (writeSegList bs n ptr pieces st1))) = offset f + 14 * length (s # pieces)"
      using IH by simp
    show "vectorIndex (maker (writeSegList bs n ptr pieces st1)) =
      foldl (gridRecord bs) (vectorIndex (maker st)) (place (offset f) (map (mkBlock n ptr) (s # pieces)))"
      using IH by (simp add: b_def)
    show "regionPool (maker (writeSegList bs n ptr pieces st1)) = regionPool (maker st)"
      using IH by simp
    show "segments (maker (writeSegList bs n ptr pieces st1)) = segments (maker st)"
      using IH by simp
    show "counter (writeSegList bs n ptr pieces st1) = counter st + length (s # pieces)"
      using IH by simp
    show "startIndexPtr (writeSegList bs n ptr pieces st1) =
      (if startIndexPtr st = - 1 \<and> s # pieces \<noteq> [] then int (offset f) else startIndexPtr st)"
      using IH pos by (auto split: if_splits)
    show "endIndexPtr (writeSegList bs n ptr pieces st1) =
      (if s # pieces = [] then endIndexPtr st else int (offset f + 14 * (length (s # pieces) - 1)))"
      using IH by (cases pieces) auto
    show "length (content f) \<le> length (content (dstHandle (maker (writeSegList bs n ptr pieces st1))))"
      using IH f1 by linarith
    fix k assume k: "k \<le> offset f \<and> k \<le> length (content f)"
    then have "k \<le> offset f + 14 \<and> k \<le> length (content f1)" using f1 by linarith
    with IH have "take k (content (dstHandle (maker (writeSegList bs n ptr pieces st1)))) = take k (content f1)"
      by blast
    with f1take k show "take k (content (dstHandle (maker (writeSegList bs n ptr pieces st1)))) = take k (content f)"
      by simp
  qed
qed

lemma blocksOf_eq: "blocksOf P seg = map (mkBlock (length (Region seg)) (the (P (Region seg)))) (Split seg)"
  by (simp add: blocksOf_def mkBlock_def)

lemma writeIndex_ok:
  fixes st :: IndexPass and segs :: "Segment list"
  defines "f \<equiv> dstHandle (maker st)"
  defines "bl \<equiv> concat (map (blocksOf (regionPool (maker st))) segs)"
  assumes ok: "\<forall>s\<in>set segs. regionPool (maker st) (Region s) \<noteq> None \<and> Region s \<noteq> []"
  shows "\<exists>st'. writeIndex bs segs st = (None, st')
     \<and> writes (dstHandle (maker st')) = writes f @ map (\<lambda>(p, b). WIndex p b) (place (offset f) bl)
     \<and> offset (dstHandle (maker st')) = offset f + 14 * length bl
     \<and> vectorIndex (maker st') = foldl (gridRecord bs) (vectorIndex (maker st)) (place (offset f) bl)
     \<and> regionPool (maker st') = regionPool (maker st)
     \<and> segments (maker st') = segments (maker st)
     \<and> counter st' = counter st + length bl
     \<and> startIndexPtr st' = (if startIndexPtr st = - 1 \<and> bl \<noteq> [] then int (offset f) else startIndexPtr st)
     \<and> endIndexPtr st' = (if bl = [] then endIndexPtr st else int (offset f + 14 * (length bl - 1)))
     \<and> length (content f) \<le> length (content (dstHandle (maker st')))
     \<and> (\<forall>k. k \<le> offset f \<and> k \<le> length (content f) \<longrightarrow>
           take k (content (dstHandle (maker st'))) = take k (content f))"
  using ok unfolding f_def bl_def
proof (induction segs arbitrary: st)
  case Nil
  show ?case by simp
next
  case (Cons s segs)
  define f where "f = dstHandle (maker st)"
  define P where "P = regionPool (maker st)"
  obtain dataPtr where dp: "P (Region s) = Some dataPtr" and ne: "Region s \<noteq> []"
    using Cons.prems by (auto simp: P_def)
  define b1 where "b1 = blocksOf P s"
  define st1 where "st1 = writeSegList bs (length (Region s)) dataPtr (Split s) st"
  have b1: "b1 = map (mkBlock (length (Region s)) dataPtr) (Split s)"
    by (simp add: b1_def blocksOf_eq dp)
  have step: "writeIndex bs (s # segs) st = writeIndex bs segs st1"
    using dp ne by (simp add: st1_def P_def Let_def)
  note F = writeSegList_facts [of bs "length (Region s)" dataPtr "Split s" st,
      folded st1_def f_def b1, unfolded length_map [of "mkBlock (length (Region s)) dataPtr" "Split s", folded b1]]
  have lb1: "length (Split s) = length b1" by (simp add: b1)
  have pool1: "regionPool (maker st1) = P" using F by (simp add: P_def)
  have ok1: "\<forall>s\<in>set segs. regionPool (maker st1) (Region s) \<noteq> None \<and> Region s \<noteq> []"
    using Cons.prems by (simp add: pool1 P_def)
  define b2 where "b2 = concat (map (blocksOf P) segs)"
  from Cons.IH [OF ok1] obtain st' where
    w: "writeIndex bs segs st1 = (None, st')"
    and G: "writes (dstHandle (maker st')) = writes (dstHandle (maker st1))
              @ map (\<lambda>(p, b). WIndex p b) (place (offset (dstHandle (maker st1))) b2)"
      "offset (dstHandle (maker st')) = offset (dstHandle (maker st1)) + 14 * length b2"
      "vectorIndex (maker st') = foldl (gridRecord bs) (vectorIndex (maker st1)) (place (offset (dstHandle (maker st1))) b2)"
      "regionPool (maker st') = regionPool (maker st1)"
      "segments (maker st') = segments (maker st1)"
      "counter st' = counter st1 + length b2"
      "startIndexPtr st' = (if startIndexPtr st1 = - 1 \<and> b2 \<noteq> [] then int (offset (dstHandle (maker st1))) else startIndexPtr st1)"
      "endIndexPtr st' = (if b2 = [] then endIndexPtr st1 else int (offset (dstHandle (maker st1)) + 14 * (length b2 - 1)))"
      "length (content (dstHandle (maker st1))) \<le> length (content (dstHandle (maker st')))"
    and Gt: "\<forall>k. k \<le> offset (dstHandle (maker st1)) \<and> k \<le> length (content (dstHandle (maker st1))) \<longrightarrow>
           take k (content (dstHandle (maker st'))) = take k (content (dstHandle (maker st1)))"
    unfolding pool1 b2_def [symmetric] by blast
  have o1: "offset (dstHandle (maker st1)) = offset f + 14 * length b1"
    using F lb1 by simp
  have bl: "concat (map (blocksOf P) (s # segs)) = b1 @ b2" by (simp add: b1_def b2_def)
  have pos: "int (offset f) \<noteq> - 1" by simp
  show ?case
    unfolding step f_def [symmetric] P_def [symmetric] bl
  proof (intro exI [of _ st'] conjI allI impI)
    show "writeIndex bs segs st1 = (None, st')" by (rule w)
    show "writes (dstHandle (maker st')) = writes f @ map (\<lambda>(p, b). WIndex p b) (place (offset f) (b1 @ b2))"
      using F G o1 by (simp add: place_append)
    show "offset (dstHandle (maker st')) = offset f + 14 * length (b1 @ b2)"
      using G o1 by simp
    show "vectorIndex (maker st') = foldl (gridRecord bs) (vectorIndex (maker st)) (place (offset f) (b1 @ b2))"
      using F G o1 by (simp add: place_append)
    show "regionPool (maker st') = P" using G pool1 by simp
    show "segments (maker st') = segments (maker st)" using F G by simp
    show "counter st' = counter st + length (b1 @ b2)" using F G lb1 by simp
    show "startIndexPtr st' = (if startIndexPtr st = - 1 \<and> b1 @ b2 \<noteq> [] then int (offset f) else startIndexPtr st)"
    proof (cases "b1 = []")
      case True
      then have "Split s = []" using lb1 by simp
      with F True G o1 show ?thesis by simp
    next
      case False
      then have "Split s \<noteq> []" using lb1 by auto
      with F False G pos show ?thesis by (auto split: if_splits)
    qed
    show "endIndexPtr st' = (if b1 @ b2 = [] then endIndexPtr st else int (offset f + 14 * (length (b1 @ b2) - 1)))"
    proof (cases "b2 = []")
      case True
      with F G lb1 show ?thesis by (cases "b1 = []") auto
    next
      case False
      then have "0 < length b2" by simp
      then have "14 * length b1 + 14 * (length b2 - 1) = 14 * (length b1 + length b2 - 1)" by arith
      with False G o1 show ?thesis by (simp add: add.assoc)
    qed
    show "length (content f) \<le> length (content (dstHandle (maker st')))"
      using F G by linarith
    fix k assume k: "k \<le> offset f \<and> k \<le> length (content f)"
    have "length (content f) \<le> length (content (dstHandle (maker st1)))" using F by simp
    with k o1 have "k \<le> offset (dstHandle (maker st1)) \<and> k \<le> length (content (dstHandle (maker st1)))"
      by linarith
    with Gt have "take k (content (dstHandle (maker st'))) = take k (content (dstHandle (maker st1)))" by blast
    also have "\<dots> = take k (content f)" using F k by blast
    finally show "take k (content (dstHandle (maker st'))) = take k (content f)" .
  qed
qed

subsection \<open>Writing the vector index\<close>

lemma foldl_blockwrite:
  assumes "\<forall>x\<in>set xs. enc x \<noteq> []"
  shows "foldl (\<lambda>f x. f\<lparr>content := store (offset f) (enc x) (content f),
                        offset := offset f + length (enc x),
                        writes := writes f @ evs x\<rparr>) f xs =
     (if xs = [] then f
      else f\<lparr>content := store (offset f) (concat (map enc xs)) (content f),
             offset := offset f + length (concat (map enc xs)),
             writes := writes f @ concat (map evs xs)\<rparr>)"
  using assms
proof (induction xs arbitrary: f)
  case Nil
  then show ?case by simp
next
  case (Cons x xs)
  show ?case
  proof (cases "xs = []")
    case True
    then show ?thesis by simp
  next
    case False
    then show ?thesis using Cons
      by (simp add: store_store add.assoc)
  qed
qed

lemma length_concat_uniform:
  "\<forall>x\<in>set xs. length (g x) = n \<Longrightarrow> length (concat (map g xs)) = n * length xs"
  by (induction xs) simp_all

lemma length_rowBytes [simp]: "length (rowBytes l) = 2048"
  unfolding rowBytes_def by (subst length_concat_uniform [where n = 8]) simp_all

lemma length_gridBytes [simp]: "length (gridBytes vi) = 524288"
  unfolding gridBytes_def by (subst length_concat_uniform [where n = 2048]) simp_all

lemma rowBytes_nonempty [simp]: "rowBytes l \<noteq> []"
  using length_rowBytes [of l] by (metis length_0_conv zero_neq_numeral)

lemma VectorIndexBlock_Encode_nonempty [simp]: "VectorIndexBlock_Encode c \<noteq> []"
  using length_VectorIndexBlock_Encode [of c] by (metis length_0_conv zero_neq_numeral)

lemma upt256_nonempty [simp]: "[0..<256] \<noteq> []"
  by simp

lemma writeVectorRow_eq:
  "writeVectorRow i l f =
     f\<lparr>content := store (offset f) (rowBytes l) (content f),
       offset := offset f + length (rowBytes l),
       writes := writes f @ map (\<lambda>j. WVector i j (l j)) [0..<256]\<rparr>"
proof -
  have "foldl (\<lambda>f j. fwrite (WVector i j (l j)) (VectorIndexBlock_Encode (l j)) f) f [0..<256] =
     (if [0..<256] = [] then f
      else f\<lparr>content := store (offset f) (concat (map (\<lambda>j. VectorIndexBlock_Encode (l j)) [0..<256])) (content f),
             offset := offset f + length (concat (map (\<lambda>j. VectorIndexBlock_Encode (l j)) [0..<256])),
             writes := writes f @ map (\<lambda>j. WVector i j (l j)) [0..<256]\<rparr>)"
    by (rule foldl_fwrite) simp
  then show ?thesis
    unfolding writeVectorRow_def VectorIndexRows_def rowBytes_def
    by (simp only: upt256_nonempty if_False)
qed

lemma writeVectorIndex_eq:
  "writeVectorIndex vi f =
     f\<lparr>content := store (offset f) (gridBytes vi) (content f),
       offset := offset f + 524288,
       writes := writes f @ gridEvents vi\<rparr>"
proof -
  have "foldl (\<lambda>f i. f\<lparr>content := store (offset f) (rowBytes (vi i)) (content f),
                        offset := offset f + length (rowBytes (vi i)),
                        writes := writes f @ map (\<lambda>j. WVector i j (vi i j)) [0..<256]\<rparr>) f [0..<256] =
     (if [0..<256] = [] then f
      else f\<lparr>content := store (offset f) (concat (map (\<lambda>i. rowBytes (vi i)) [0..<256])) (content f),
             offset := offset f + length (concat (map (\<lambda>i. rowBytes (vi i)) [0..<256])),
             writes := writes f @ concat (map (\<lambda>i. map (\<lambda>j. WVector i j (vi i j)) [0..<256]) [0..<256])\<rparr>)"
    by (rule foldl_blockwrite) simp
  then show ?thesis
    unfolding writeVectorIndex_def VectorIndexCols_def writeVectorRow_eq
      gridBytes_def [symmetric] gridEvents_def [symmetric]
    by (simp only: upt256_nonempty if_False length_gridBytes)
qed

lemma Start_ok:
  fixes m :: Maker and bs :: uint32
  defines "segs \<equiv> segments m"
  defines "P' \<equiv> poolAfter (regionPool m) 524544 segs"
  defines "o1 \<equiv> offAfter (regionPool m) 524544 segs"
  defines "bl \<equiv> concat (map (blocksOf P') segs)"
  defines "vi' \<equiv> foldl (gridRecord bs) (vectorIndex m) (place o1 bl)"
  defines "sp \<equiv> (word_of_int (if bl = [] then - 1 else int o1) :: uint32)"
  defines "ep \<equiv> (word_of_int (if bl = [] then - 1 else int (o1 + 14 * (length bl - 1))) :: uint32)"
  assumes ne: "segs \<noteq> []"
    and ok: "\<forall>s\<in>set segs. length (Region s) \<le> 65535 \<and> Region s \<noteq> []"
  shows "\<exists>m' c3. Start bs m = (None, m') \<and> regionPool m' = P' \<and> vectorIndex m' = vi'
     \<and> segments m' = segs
     \<and> writes (dstHandle m') = writes (dstHandle m)
          @ map (\<lambda>(p, r). WData p r) (regionWrites (regionPool m) 524544 segs)
          @ map (\<lambda>(p, b). WIndex p b) (place o1 bl) @ gridEvents vi' @ [WIndexPtr sp ep]
     \<and> content (dstHandle m') = store 8 (PutUint32 sp @ PutUint32 ep) (store 256 (gridBytes vi') c3)
     \<and> length (content (dstHandle m)) \<le> length c3
     \<and> (\<forall>k. k \<le> 524544 \<and> k \<le> length (content (dstHandle m)) \<longrightarrow>
           take k c3 = take k (content (dstHandle m)))"
proof -
  define m1 where "m1 = m\<lparr>dstHandle := fseek (HeaderInfoLength + VectorIndexLength) (dstHandle m)\<rparr>"
  have m1: "regionPool m1 = regionPool m" "offset (dstHandle m1) = 524544" "segments m1 = segs"
    "writes (dstHandle m1) = writes (dstHandle m)" "content (dstHandle m1) = content (dstHandle m)"
    "vectorIndex m1 = vectorIndex m"
    by (simp_all add: m1_def fseek_def HeaderInfoLength_def VectorIndexLength_def
        VectorIndexRows_def VectorIndexCols_def VectorIndexSize_def segs_def)
  have short: "\<forall>s\<in>set segs. length (Region s) \<le> 65535" using ok by blast
  from writeRegions_ok [OF short, of m1, unfolded m1] obtain m2 where
    w1: "writeRegions segs m1 = (None, m2)"
    and A: "regionPool m2 = P'" "offset (dstHandle m2) = o1"
      "writes (dstHandle m2) = writes (dstHandle m)
          @ map (\<lambda>(p, r). WData p r) (regionWrites (regionPool m) 524544 segs)"
      "vectorIndex m2 = vectorIndex m" "segments m2 = segs"
      "length (content (dstHandle m)) \<le> length (content (dstHandle m2))"
    and At: "\<forall>k. k \<le> 524544 \<and> k \<le> length (content (dstHandle m))
           \<longrightarrow> take k (content (dstHandle m2)) = take k (content (dstHandle m))"
    unfolding P'_def o1_def by blast
  define st0 where "st0 = \<lparr>maker = m2, counter = 0, startIndexPtr = - 1, endIndexPtr = - 1\<rparr>"
  have st0: "maker st0 = m2" "startIndexPtr st0 = - 1" "endIndexPtr st0 = - 1" "counter st0 = 0"
    by (simp_all add: st0_def)
  have dom: "\<forall>s\<in>set segs. regionPool (maker st0) (Region s) \<noteq> None \<and> Region s \<noteq> []"
  proof
    fix s assume s: "s \<in> set segs"
    then have "Region s \<in> dom P'" by (simp add: P'_def poolAfter_dom)
    with s ok show "regionPool (maker st0) (Region s) \<noteq> None \<and> Region s \<noteq> []"
      by (auto simp: st0 A)
  qed
  from writeIndex_ok [OF dom, of bs, unfolded st0 A, folded bl_def] obtain st3 where
    w2: "writeIndex bs segs st0 = (None, st3)"
    and B: "writes (dstHandle (maker st3)) = (writes (dstHandle m)
          @ map (\<lambda>(p, r). WData p r) (regionWrites (regionPool m) 524544 segs))
          @ map (\<lambda>(p, b). WIndex p b) (place o1 bl)"
      "vectorIndex (maker st3) = vi'" "regionPool (maker st3) = P'" "segments (maker st3) = segs"
      "startIndexPtr st3 = (if - 1 = (- 1 :: int) \<and> bl \<noteq> [] then int o1 else - 1)"
      "endIndexPtr st3 = (if bl = [] then - 1 else int (o1 + 14 * (length bl - 1)))"
      "length (content (dstHandle m2)) \<le> length (content (dstHandle (maker st3)))"
    and Bt: "\<forall>k. k \<le> o1 \<and> k \<le> length (content (dstHandle m2)) \<longrightarrow>
           take k (content (dstHandle (maker st3))) = take k (content (dstHandle m2))"
    unfolding vi'_def by blast
  define c3 where "c3 = content (dstHandle (maker st3))"
  have o1: "524544 \<le> o1" unfolding o1_def by (rule offAfter_ge)
  have sp: "word_of_int (startIndexPtr st3) = sp" using B by (simp add: sp_def)
  have ep: "word_of_int (endIndexPtr st3) = ep" using B by (simp add: ep_def)
  have nl: "\<not> length (segments m) < 1" using ne by (cases "segments m") (auto simp: segs_def)
  define f4 where "f4 = fwrite (WIndexPtr sp ep) (PutUint32 sp @ PutUint32 ep)
        (fseek 8 (writeVectorIndex vi' (fseek HeaderInfoLength (dstHandle (maker st3)))))"
  define m' where "m' = (maker st3)\<lparr>dstHandle := f4\<rparr>"
  have S: "Start bs m = (None, m')"
    using nl w1 w2 unfolding Start_def m'_def f4_def
    by (simp add: Let_def m1_def [symmetric] m1 A st0_def [symmetric] sp ep B(2))
  have frame: "take k c3 = take k (content (dstHandle m))"
    if "k \<le> 524544 \<and> k \<le> length (content (dstHandle m))" for k
  proof -
    have "k \<le> o1 \<and> k \<le> length (content (dstHandle m2))" using that o1 A by linarith
    with Bt have "take k c3 = take k (content (dstHandle m2))" by (simp add: c3_def)
    with At that show ?thesis by simp
  qed
  have ne8: "PutUint32 sp \<noteq> []" by (simp add: PutUint32_def)
  have f4w: "writes f4 = writes (dstHandle (maker st3)) @ gridEvents vi' @ [WIndexPtr sp ep]"
    by (simp add: f4_def writeVectorIndex_eq fseek_def)
  have f4c: "content f4 = store 8 (PutUint32 sp @ PutUint32 ep) (store 256 (gridBytes vi') c3)"
    using ne8 by (simp add: f4_def writeVectorIndex_eq fseek_def fwrite_def HeaderInfoLength_def c3_def)
  have M: "regionPool m' = P'" "vectorIndex m' = vi'" "segments m' = segs" "dstHandle m' = f4"
    using B by (simp_all add: m'_def)
  have len: "length (content (dstHandle m)) \<le> length c3"
    using A B by (simp add: c3_def)
  show ?thesis
  proof (intro exI [of _ m'] exI [of _ c3] conjI allI impI)
    show "Start bs m = (None, m')" by (rule S)
    show "writes (dstHandle m') = writes (dstHandle m)
          @ map (\<lambda>(p, r). WData p r) (regionWrites (regionPool m) 524544 segs)
          @ map (\<lambda>(p, b). WIndex p b) (place o1 bl) @ gridEvents vi' @ [WIndexPtr sp ep]"
      by (simp add: M f4w B)
    show "content (dstHandle m') = store 8 (PutUint32 sp @ PutUint32 ep) (store 256 (gridBytes vi') c3)"
      by (simp add: M f4c)
    show "take k c3 = take k (content (dstHandle m))"
      if "k \<le> 524544 \<and> k \<le> length (content (dstHandle m))" for k
      using that by (rule frame)
  qed (simp_all add: M len)
qed

subsection \<open>Init\<close>

lemma length_header [simp]: "length (header policy now) = 256"
  by (simp add: header_def)

lemma loadLines_accept:
  "loadLines ls la m = (None, m') \<Longrightarrow>
     \<exists>new. segments m' = segments m @ new \<and> chain la new \<and> (\<forall>s\<in>set new. wellformed s)
       \<and> dstHandle m' = dstHandle m \<and> regionPool m' = regionPool m \<and> vectorIndex m' = vectorIndex m"
proof (induction ls arbitrary: la m)
  case Nil
  then show ?case by simp
next
  case (Cons t ts)
  define l where "l = TrimSpace (TrimSuffix t [CHR 0x0A])"
  from Cons.prems obtain ps0 ps1 ps2 sip eip where
    sp: "SplitN l (CHR ''|'') 3 = [ps0, ps1, ps2]"
    and ip: "CheckIP ps0 = Some sip" "CheckIP ps1 = Some eip"
    and le: "\<not> sip > eip" and ne: "\<not> length ps2 < 1"
    and ch: "\<not> (case la of None \<Rightarrow> False | Some p \<Rightarrow> EndIP p + 1 \<noteq> sip)"
    and rest: "loadLines ts (Some \<lparr>StartIP = sip, EndIP = eip, Region = ps2\<rparr>)
                 (m\<lparr>segments := segments m @ [\<lparr>StartIP = sip, EndIP = eip, Region = ps2\<rparr>]\<rparr>) = (None, m')"
    by (auto simp: Let_def l_def [symmetric] split: list.splits option.splits if_splits)
  define seg where "seg = \<lparr>StartIP = sip, EndIP = eip, Region = ps2\<rparr>"
  from Cons.IH [OF rest] obtain new where
    n: "segments m' = (segments m @ [seg]) @ new" "chain (Some seg) new" "\<forall>s\<in>set new. wellformed s"
      "dstHandle m' = dstHandle m" "regionPool m' = regionPool m" "vectorIndex m' = vectorIndex m"
    by (auto simp: seg_def)
  have wf: "wellformed seg" using le ne by (simp add: wellformed_def seg_def)
  have c: "chain la (seg # new)"
    using ch n(2) by (cases la) (simp_all add: seg_def)
  show ?case
    by (rule exI [of _ "seg # new"]) (use n wf c in simp)
qed

lemma Init_accept:
  assumes "Init now (NewMaker policy src) = (None, m)"
  shows "chain None (segments m)" "\<forall>s\<in>set (segments m). wellformed s"
    "regionPool m = Map.empty" "vectorIndex m = (\<lambda>i j. \<lparr>FirstPtr = 0, LastPtr = 0\<rparr>)"
    "writes (dstHandle m) = [WHeader]" "content (dstHandle m) = header policy now"
proof -
  define m0 where "m0 = initDbHeader now (NewMaker policy src)"
  from assms have l: "loadLines src None m0 = (None, m)"
    by (auto simp: Init_def loadSegments_def m0_def initDbHeader_def NewMaker_def
        split: prod.splits option.splits)
  have h: "header policy now \<noteq> []"
    using length_header [of policy now] by (metis length_0_conv zero_neq_numeral)
  have m0: "segments m0 = []" "regionPool m0 = Map.empty"
    "vectorIndex m0 = (\<lambda>i j. \<lparr>FirstPtr = 0, LastPtr = 0\<rparr>)"
    "writes (dstHandle m0) = [WHeader]" "content (dstHandle m0) = header policy now"
    using h by (simp_all add: m0_def initDbHeader_def NewMaker_def fwrite_def fseek_def store_def)
  from loadLines_accept [OF l] m0
  show "chain None (segments m)" "\<forall>s\<in>set (segments m). wellformed s"
    "regionPool m = Map.empty" "vectorIndex m = (\<lambda>i j. \<lparr>FirstPtr = 0, LastPtr = 0\<rparr>)"
    "writes (dstHandle m) = [WHeader]" "content (dstHandle m) = header policy now"
    by auto
qed

subsection \<open>When Start succeeds\<close>

lemma writeRegions_short:
  "writeRegions segs m = (None, m') \<Longrightarrow>
     \<forall>s\<in>set segs. Region s \<in> dom (regionPool m) \<or> length (Region s) \<le> 65535"
proof (induction segs arbitrary: m)
  case Nil
  then show ?case by simp
next
  case (Cons s ss)
  show ?case
  proof (cases "regionPool m (Region s)")
    case (Some v)
    with Cons.prems have "writeRegions ss m = (None, m')" by simp
    from Cons.IH [OF this] Some show ?thesis by auto
  next
    case None
    define m1 where "m1 = m\<lparr>dstHandle := fwrite (WData (offset (dstHandle m)) (Region s))
        (map of_char (Region s)) (dstHandle m),
      regionPool := (regionPool m)(Region s \<mapsto> of_nat (offset (dstHandle m)))\<rparr>"
    from Cons.prems None have short: "length (Region s) \<le> 65535"
      and r: "writeRegions ss m1 = (None, m')"
      by (auto simp: Let_def m1_def split: if_splits)
    have d: "dom (regionPool m1) = insert (Region s) (dom (regionPool m))"
      by (simp add: m1_def)
    from Cons.IH [OF r] d short show ?thesis by auto
  qed
qed

lemma Start_None_short:
  assumes "Start bs m = (None, m')" and "regionPool m = Map.empty"
  shows "segments m \<noteq> []" "\<forall>s\<in>set (segments m). length (Region s) \<le> 65535"
proof -
  define m1 where "m1 = m\<lparr>dstHandle := fseek (HeaderInfoLength + VectorIndexLength) (dstHandle m)\<rparr>"
  from assms(1) show ne: "segments m \<noteq> []"
    by (auto simp: Start_def)
  then have "\<not> length (segments m) < 1" by (cases "segments m") auto
  with assms(1) obtain m2 where "writeRegions (segments m) m1 = (None, m2)"
    by (auto simp: Start_def Let_def m1_def split: prod.splits option.splits)
  from writeRegions_short [OF this] assms(2)
  show "\<forall>s\<in>set (segments m). length (Region s) \<le> 65535"
    by (simp add: m1_def)
qed

subsection \<open>The writes by kind\<close>

lemma dataWrites_append [simp]: "dataWrites (xs @ ys) = dataWrites xs @ dataWrites ys"
  by (induction xs rule: dataWrites.induct) simp_all

lemma indexWrites_append [simp]: "indexWrites (xs @ ys) = indexWrites xs @ indexWrites ys"
  by (induction xs rule: indexWrites.induct) simp_all

lemma dataWrites_WData [simp]: "dataWrites (map (\<lambda>(p, r). WData p r) ds) = ds"
  by (induction ds) auto

lemma dataWrites_WIndex [simp]: "dataWrites (map (\<lambda>(p, b). WIndex p b) es) = []"
  by (induction es) auto

lemma indexWrites_WData [simp]: "indexWrites (map (\<lambda>(p, r). WData p r) ds) = []"
  by (induction ds) auto

lemma indexWrites_WIndex [simp]: "indexWrites (map (\<lambda>(p, b). WIndex p b) es) = es"
  by (induction es) auto

lemma dataWrites_WVector [simp]: "dataWrites (map (\<lambda>j. WVector i j (l j)) js) = []"
  by (induction js) auto

lemma indexWrites_WVector [simp]: "indexWrites (map (\<lambda>j. WVector i j (l j)) js) = []"
  by (induction js) auto

lemma dataWrites_concat_nil:
  "\<forall>x\<in>set xs. dataWrites (g x) = [] \<Longrightarrow> dataWrites (concat (map g xs)) = []"
  by (induction xs) simp_all

lemma indexWrites_concat_nil:
  "\<forall>x\<in>set xs. indexWrites (g x) = [] \<Longrightarrow> indexWrites (concat (map g xs)) = []"
  by (induction xs) simp_all

lemma dataWrites_gridEvents [simp]: "dataWrites (gridEvents vi) = []"
  unfolding gridEvents_def by (rule dataWrites_concat_nil) simp

lemma indexWrites_gridEvents [simp]: "indexWrites (gridEvents vi) = []"
  unfolding gridEvents_def by (rule indexWrites_concat_nil) simp

subsection \<open>Split\<close>

lemma cell_mono: "a \<le> b \<Longrightarrow> cell a \<le> cell b"
  by (simp add: cell_def word_le_nat_alt div_le_mono)

lemma Split_nonempty: "StartIP s \<le> EndIP s \<Longrightarrow> Split s \<noteq> []"
  using cell_mono [of "StartIP s" "EndIP s"] by (simp add: Split_def)

lemma blocksOf_nonempty: "wellformed s \<Longrightarrow> blocksOf P s \<noteq> []"
  by (simp add: blocksOf_def wellformed_def Split_nonempty)

subsection \<open>A build after Init\<close>

lemma build:
  fixes m m' :: Maker
  assumes I: "Init now (NewMaker policy src) = (None, m)" and S: "Start bs m = (None, m')"
  defines "segs \<equiv> segments m"
  defines "ds \<equiv> regionWrites Map.empty 524544 segs"
  defines "P' \<equiv> poolAfter Map.empty 524544 segs"
  defines "o1 \<equiv> offAfter Map.empty 524544 segs"
  defines "bl \<equiv> concat (map (blocksOf P') segs)"
  defines "vi' \<equiv> foldl (gridRecord bs) (\<lambda>i j. \<lparr>FirstPtr = 0, LastPtr = 0\<rparr>) (place o1 bl)"
  shows "segs \<noteq> []" "\<forall>s\<in>set segs. wellformed s \<and> length (Region s) \<le> 65535"
    "chain None segs" "bl \<noteq> []"
    "regionPool m' = P'" "vectorIndex m' = vi'" "segments m' = segs"
    "writes (dstHandle m') = WHeader # map (\<lambda>(p, r). WData p r) ds
        @ map (\<lambda>(p, b). WIndex p b) (place o1 bl) @ gridEvents vi'
        @ [WIndexPtr (of_nat o1) (of_nat (o1 + 14 * (length bl - 1)))]"
    "\<exists>c3. content (dstHandle m') =
        store 8 (PutUint32 (of_nat o1) @ PutUint32 (of_nat (o1 + 14 * (length bl - 1))))
          (store 256 (gridBytes vi') c3)
        \<and> 256 \<le> length c3 \<and> take 256 c3 = header policy now"
proof -
  note A = Init_accept [OF I]
  note N = Start_None_short [OF S A(3)]
  show ne: "segs \<noteq> []" using N by (simp add: segs_def)
  show wf: "\<forall>s\<in>set segs. wellformed s \<and> length (Region s) \<le> 65535"
    using A N by (simp add: segs_def)
  show "chain None segs" using A by (simp add: segs_def)
  obtain s ss where sg: "segs = s # ss" using ne by (cases segs) auto
  with wf have "blocksOf P' s \<noteq> []" by (simp add: blocksOf_nonempty)
  then show bne: "bl \<noteq> []" by (simp add: bl_def sg)
  have ok: "\<forall>s\<in>set (segments m). length (Region s) \<le> 65535 \<and> Region s \<noteq> []"
    using wf by (simp add: segs_def wellformed_def)
  from Start_ok [OF ne [unfolded segs_def] ok, of bs] S
  obtain c3 where R: "regionPool m' = P'" "vectorIndex m' = vi'" "segments m' = segs"
    "writes (dstHandle m') = writes (dstHandle m)
          @ map (\<lambda>(p, r). WData p r) (regionWrites (regionPool m) 524544 segs)
          @ map (\<lambda>(p, b). WIndex p b) (place o1 bl) @ gridEvents vi'
          @ [WIndexPtr (word_of_int (if bl = [] then - 1 else int o1))
                       (word_of_int (if bl = [] then - 1 else int (o1 + 14 * (length bl - 1))))]"
    "content (dstHandle m') = store 8 (PutUint32 (word_of_int (if bl = [] then - 1 else int o1))
          @ PutUint32 (word_of_int (if bl = [] then - 1 else int (o1 + 14 * (length bl - 1)))))
          (store 256 (gridBytes vi') c3)"
    "length (content (dstHandle m)) \<le> length c3"
    "\<forall>k. k \<le> 524544 \<and> k \<le> length (content (dstHandle m)) \<longrightarrow>
           take k c3 = take k (content (dstHandle m))"
    unfolding segs_def P'_def o1_def bl_def vi'_def A by auto
  show "regionPool m' = P'" "vectorIndex m' = vi'" "segments m' = segs" by (rule R)+
  have w: "word_of_int (int o1) = (of_nat o1 :: uint32)"
    "word_of_int (int (o1 + 14 * (length bl - 1))) = (of_nat (o1 + 14 * (length bl - 1)) :: uint32)"
    by simp_all
  show "writes (dstHandle m') = WHeader # map (\<lambda>(p, r). WData p r) ds
        @ map (\<lambda>(p, b). WIndex p b) (place o1 bl) @ gridEvents vi'
        @ [WIndexPtr (of_nat o1) (of_nat (o1 + 14 * (length bl - 1)))]"
    using R(4) bne unfolding A ds_def by (simp only: w if_False append_Cons append_Nil)
  have "256 \<le> length c3" using R(6) by (simp add: A)
  moreover have "take 256 c3 = header policy now"
    using R(7) [rule_format, of 256] by (simp add: A)
  moreover have "content (dstHandle m') =
        store 8 (PutUint32 (of_nat o1) @ PutUint32 (of_nat (o1 + 14 * (length bl - 1))))
          (store 256 (gridBytes vi') c3)"
    using R(5) bne by (simp only: w if_False)
  ultimately show "\<exists>c3. content (dstHandle m') =
        store 8 (PutUint32 (of_nat o1) @ PutUint32 (of_nat (o1 + 14 * (length bl - 1))))
          (store 256 (gridBytes vi') c3)
        \<and> 256 \<le> length c3 \<and> take 256 c3 = header policy now"
    by blast
qed

lemma unat_of_nat32: "n < 4294967296 \<Longrightarrow> unat (of_nat n :: uint32) = n"
  by (rule of_nat_inverse [OF refl]) simp

lemma place_hd: "bl \<noteq> [] \<Longrightarrow> fst (hd (place off bl)) = off"
  by (cases bl) simp_all

lemma place_last: "bl \<noteq> [] \<Longrightarrow> fst (last (place off bl)) = off + 14 * (length bl - 1)"
proof -
  assume ne: "bl \<noteq> []"
  then have "last (place off bl) = place off bl ! (length bl - 1)"
    by (simp add: last_conv_nth)
  also have "\<dots> = (off + 14 * (length bl - 1), bl ! (length bl - 1))"
    using ne by (intro place_nth) simp
  finally show ?thesis by simp
qed

lemma build_indexWrites:
  assumes "Init now (NewMaker policy src) = (None, m)" and "Start bs m = (None, m')"
  shows "indexWrites (writes (dstHandle m')) =
     place (offAfter Map.empty 524544 (segments m))
       (concat (map (blocksOf (poolAfter Map.empty 524544 (segments m))) (segments m)))"
  by (simp add: build(8) [OF assms])

lemma build_dataWrites:
  assumes "Init now (NewMaker policy src) = (None, m)" and "Start bs m = (None, m')"
  shows "dataWrites (writes (dstHandle m')) = regionWrites Map.empty 524544 (segments m)"
  by (simp add: build(8) [OF assms])

lemma header_bytes:
  assumes "Init now (NewMaker policy src) = (None, m)" and "Start bs m = (None, m')"
  shows "Uint16 (take 2 (content (dstHandle m'))) = Some 2
     \<and> indexWrites (writes (dstHandle m')) \<noteq> []
     \<and> Uint32 (take 4 (drop 8 (content (dstHandle m'))))
         = Some (of_nat (fst (hd (indexWrites (writes (dstHandle m'))))))
     \<and> Uint32 (take 4 (drop 12 (content (dstHandle m'))))
         = Some (of_nat (fst (last (indexWrites (writes (dstHandle m'))))))
     \<and> (fst (last (indexWrites (writes (dstHandle m')))) < 2 ^ 32 \<longrightarrow>
          unat (of_nat (fst (hd (indexWrites (writes (dstHandle m'))))) :: uint32)
            = fst (hd (indexWrites (writes (dstHandle m'))))
        \<and> unat (of_nat (fst (last (indexWrites (writes (dstHandle m'))))) :: uint32)
            = fst (last (indexWrites (writes (dstHandle m')))))"
proof -
  define o1 where "o1 = offAfter Map.empty 524544 (segments m)"
  define bl where "bl = concat (map (blocksOf (poolAfter Map.empty 524544 (segments m))) (segments m))"
  define es where "es = indexWrites (writes (dstHandle m'))"
  note B = build [OF assms, folded o1_def bl_def]
  have es: "es = place o1 bl"
    unfolding es_def o1_def bl_def by (rule build_indexWrites [OF assms])
  have bne: "bl \<noteq> []" by (rule B(4))
  have hd: "fst (hd es) = o1" and last: "fst (last es) = o1 + 14 * (length bl - 1)"
    using bne by (simp_all add: es place_hd place_last)
  define buff where "buff = PutUint32 (of_nat o1) @ PutUint32 (of_nat (o1 + 14 * (length bl - 1)))"
  from B(9) obtain c3 X where c: "content (dstHandle m') = store 8 buff X"
    and X: "X = store 256 (gridBytes (vectorIndex m')) c3"
    and c3: "256 \<le> length c3" "take 256 c3 = header policy now"
    unfolding buff_def B(6) by blast
  have lb: "length buff = 8" by (simp add: buff_def)
  have lX: "2 \<le> length X" by (simp add: X length_store)
  have "take 2 (content (dstHandle m')) = take 2 X"
    unfolding c using lX by (intro take_store_below) simp_all
  also have "\<dots> = take 2 c3"
    unfolding X using c3 by (intro take_store_below) simp_all
  also have "\<dots> = take 2 (take 256 c3)" by simp
  also have "\<dots> = PutUint16 2"
    unfolding c3 by (simp add: header_def VersionNo_def PutUint16_def)
  finally have v: "Uint16 (take 2 (content (dstHandle m'))) = Some 2"
    by (simp add: Uint16_PutUint16)
  have r: "take 8 (drop 8 (content (dstHandle m'))) = buff"
    unfolding c using read_store [of buff 8 X] by (simp add: lb)
  have "take 4 (drop 8 (content (dstHandle m'))) = take 4 (take 8 (drop 8 (content (dstHandle m'))))"
    by simp
  also have "\<dots> = PutUint32 (of_nat o1)" unfolding r by (simp add: buff_def)
  finally have s: "Uint32 (take 4 (drop 8 (content (dstHandle m')))) = Some (of_nat o1)"
    by (simp add: Uint32_PutUint32)
  have "take 4 (drop 12 (content (dstHandle m')))
      = take 4 (drop 4 (take 8 (drop 8 (content (dstHandle m')))))"
    by (simp add: drop_take)
  also have "\<dots> = PutUint32 (of_nat (o1 + 14 * (length bl - 1)))"
    unfolding r by (simp add: buff_def)
  finally have e: "Uint32 (take 4 (drop 12 (content (dstHandle m'))))
      = Some (of_nat (o1 + 14 * (length bl - 1)))"
    by (simp add: Uint32_PutUint32)
  have u: "unat (of_nat o1 :: uint32) = o1 \<and>
      unat (of_nat (o1 + 14 * (length bl - 1)) :: uint32) = o1 + 14 * (length bl - 1)"
    if "o1 + 14 * (length bl - 1) < 2 ^ 32"
  proof -
    have "o1 < 4294967296" "o1 + 14 * (length bl - 1) < 4294967296" using that by simp_all
    then show ?thesis by (simp only: unat_of_nat32)
  qed
  have ne: "es \<noteq> []" using bne by (simp add: es)
  show ?thesis
    unfolding es_def [symmetric] hd last using v ne s e u by simp
qed

text \<open>
  C2, as amended. After \<open>Init\<close> and a successful \<open>Start\<close>, the first two bytes of the
  file decode (little-endian) to the version 2, bytes 8 to 11 to the \<open>uint32\<close> of the
  offset at which the first index block was written, and bytes 12 to 15 to the
  \<open>uint32\<close> of the offset at which the last index block was written. When the last
  index block lies below 2^32 both fields are the offsets themselves.
\<close>

theorem header_after_Start:
  assumes "Init now (NewMaker policy src) = (None, m)" and "Start bs m = (None, m')"
  shows "Uint16 (take 2 (content (dstHandle m'))) = Some 2
     \<and> indexWrites (writes (dstHandle m')) \<noteq> []
     \<and> Uint32 (take 4 (drop 8 (content (dstHandle m'))))
         = Some (of_nat (fst (hd (indexWrites (writes (dstHandle m'))))))
     \<and> Uint32 (take 4 (drop 12 (content (dstHandle m'))))
         = Some (of_nat (fst (last (indexWrites (writes (dstHandle m'))))))
     \<and> (fst (last (indexWrites (writes (dstHandle m')))) < 2 ^ 32 \<longrightarrow>
          unat (of_nat (fst (hd (indexWrites (writes (dstHandle m'))))) :: uint32)
            = fst (hd (indexWrites (writes (dstHandle m'))))
        \<and> unat (of_nat (fst (last (indexWrites (writes (dstHandle m'))))) :: uint32)
            = fst (last (indexWrites (writes (dstHandle m')))))"
  using assms by (rule header_bytes)

lemma example_segments:
  "Init 0 (NewMaker 0 exampleSource) = (None, snd (Init 0 (NewMaker 0 exampleSource)))"
  "segments (snd (Init 0 (NewMaker 0 exampleSource))) =
     [\<lparr>StartIP = 16777216, EndIP = 16842751, Region = ''CN''\<rparr>,
      \<lparr>StartIP = 16842752, EndIP = 16843007, Region = ''US''\<rparr>,
      \<lparr>StartIP = 16843008, EndIP = 16973823, Region = ''CN''\<rparr>]"
proof -
  have "fst (Init 0 (NewMaker 0 exampleSource)) = None"
    by (simp add: exampleSource_def load_defs)
  then show "Init 0 (NewMaker 0 exampleSource) = (None, snd (Init 0 (NewMaker 0 exampleSource)))"
    by (metis prod.collapse)
  show "segments (snd (Init 0 (NewMaker 0 exampleSource))) =
     [\<lparr>StartIP = 16777216, EndIP = 16842751, Region = ''CN''\<rparr>,
      \<lparr>StartIP = 16842752, EndIP = 16843007, Region = ''US''\<rparr>,
      \<lparr>StartIP = 16843008, EndIP = 16973823, Region = ''CN''\<rparr>]"
    by (simp add: exampleSource_def load_defs)
qed

lemma example_Start:
  "Start 12 (snd (Init 0 (NewMaker 0 exampleSource)))
     = (None, snd (Start 12 (snd (Init 0 (NewMaker 0 exampleSource)))))"
proof -
  have "\<exists>m' c3. Start 12 (snd (Init 0 (NewMaker 0 exampleSource))) = (None, m') \<and> True"
    using Start_ok [of "snd (Init 0 (NewMaker 0 exampleSource))" 12]
    unfolding example_segments(2) by simp blast
  then show ?thesis by auto
qed

lemma example_split:
  "Split \<lparr>StartIP = 16777216, EndIP = 16842751, Region = ''CN''\<rparr>
     = [\<lparr>StartIP = 16777216, EndIP = 16842751, Region = ''CN''\<rparr>]"
  "Split \<lparr>StartIP = 16842752, EndIP = 16843007, Region = ''US''\<rparr>
     = [\<lparr>StartIP = 16842752, EndIP = 16843007, Region = ''US''\<rparr>]"
  "Split \<lparr>StartIP = 16843008, EndIP = 16973823, Region = ''CN''\<rparr>
     = [\<lparr>StartIP = 16843008, EndIP = 16908287, Region = ''CN''\<rparr>,
        \<lparr>StartIP = 16908288, EndIP = 16973823, Region = ''CN''\<rparr>]"
  by (simp_all add: Split_def cell_def upt_rec [of 256] upt_rec [of 257] upt_rec [of 258] upt_rec [of 259])

lemma example_indexWrites:
  "indexWrites (writes (dstHandle (snd (Start 12 (snd (Init 0 (NewMaker 0 exampleSource)))))))
     = [(524548, \<lparr>ibStartIP = 16777216, ibEndIP = 16842751, DataLen = 2, DataPtr = 524544\<rparr>),
        (524562, \<lparr>ibStartIP = 16842752, ibEndIP = 16843007, DataLen = 2, DataPtr = 524546\<rparr>),
        (524576, \<lparr>ibStartIP = 16843008, ibEndIP = 16908287, DataLen = 2, DataPtr = 524544\<rparr>),
        (524590, \<lparr>ibStartIP = 16908288, ibEndIP = 16973823, DataLen = 2, DataPtr = 524544\<rparr>)]"
  unfolding build_indexWrites [OF example_segments(1) example_Start] example_segments(2)
  by (simp add: blocksOf_def example_split)

theorem header_after_Start_witness:
  "Init 0 (NewMaker 0 exampleSource) = (None, snd (Init 0 (NewMaker 0 exampleSource)))
   \<and> Start 12 (snd (Init 0 (NewMaker 0 exampleSource)))
       = (None, snd (Start 12 (snd (Init 0 (NewMaker 0 exampleSource)))))
   \<and> Uint16 (take 2 (content (dstHandle (snd (Start 12 (snd (Init 0 (NewMaker 0 exampleSource))))))))
       = Some 2
   \<and> Uint32 (take 4 (drop 8 (content (dstHandle (snd (Start 12 (snd (Init 0 (NewMaker 0 exampleSource)))))))))
       = Some 524548
   \<and> Uint32 (take 4 (drop 12 (content (dstHandle (snd (Start 12 (snd (Init 0 (NewMaker 0 exampleSource)))))))))
       = Some 524590"
  using header_after_Start [OF example_segments(1) example_Start]
  unfolding example_indexWrites
  by (simp add: example_segments(1) [symmetric] example_Start [symmetric])

lemma loadLines_wrapLine:
  "loadLines (wrapLine # ts) None m
     = loadLines ts (Some wrapSegment) (m\<lparr>segments := segments m @ [wrapSegment]\<rparr>)"
  "loadLines (wrapLine # ts) (Some wrapSegment) m
     = loadLines ts (Some wrapSegment) (m\<lparr>segments := segments m @ [wrapSegment]\<rparr>)"
  by (simp_all add: wrapLine_def wrapSegment_def load_defs)

lemma loadLines_replicate:
  "fst (loadLines (replicate n wrapLine) (Some wrapSegment) m) = None
   \<and> segments (snd (loadLines (replicate n wrapLine) (Some wrapSegment) m))
       = segments m @ replicate n wrapSegment"
proof (induction n arbitrary: m)
  case 0
  show ?case by simp
next
  case (Suc n)
  have "replicate n wrapSegment @ [wrapSegment] = wrapSegment # replicate n wrapSegment"
    by (simp add: replicate_append_same)
  then show ?case
    using Suc [of "m\<lparr>segments := segments m @ [wrapSegment]\<rparr>"]
    by (simp add: loadLines_wrapLine del: loadLines.simps)
qed

lemma replicate_4681: "replicate 4681 x = x # replicate 4680 x"
proof -
  have "(4681 :: nat) = Suc 4680" by simp
  then show ?thesis by (simp only: replicate_Suc)
qed

lemma bigSource_Init:
  "Init 0 (NewMaker 0 bigSource) = (None, snd (Init 0 (NewMaker 0 bigSource)))"
  "segments (snd (Init 0 (NewMaker 0 bigSource))) = replicate 4681 wrapSegment"
proof -
  define m0 where "m0 = initDbHeader 0 (NewMaker 0 bigSource)"
  have b: "bigSource = wrapLine # replicate 4680 wrapLine"
    unfolding bigSource_def by (rule replicate_4681)
  have s0: "segments m0 = []" "srcHandle m0 = bigSource"
    by (simp_all add: m0_def initDbHeader_def NewMaker_def)
  define m1 where "m1 = m0\<lparr>segments := segments m0 @ [wrapSegment]\<rparr>"
  have l: "loadSegments m0 = loadLines (replicate 4680 wrapLine) (Some wrapSegment) m1"
    unfolding loadSegments_def s0(2) b m1_def by (simp only: loadLines_wrapLine)
  note R = loadLines_replicate [of 4680 m1]
  have f: "fst (loadSegments m0) = None" using R by (simp add: l)
  have g: "segments (snd (loadSegments m0)) = replicate 4681 wrapSegment"
  proof -
    have "segments (snd (loadSegments m0)) = wrapSegment # replicate 4680 wrapSegment"
      using R by (simp add: l m1_def s0)
    then show ?thesis by (simp only: replicate_4681)
  qed
  obtain e mm where p: "loadSegments m0 = (e, mm)" by (cases "loadSegments m0")
  with f g have e: "e = None" and mm: "segments mm = replicate 4681 wrapSegment" by simp_all
  have I: "Init 0 (NewMaker 0 bigSource) = (None, mm)"
    unfolding Init_def m0_def [symmetric] p e by simp
  then show "Init 0 (NewMaker 0 bigSource) = (None, snd (Init 0 (NewMaker 0 bigSource)))"
    by simp
  from I mm show "segments (snd (Init 0 (NewMaker 0 bigSource))) = replicate 4681 wrapSegment"
    by simp
qed

lemma offAfter_known:
  "P (Region s) \<noteq> None \<Longrightarrow> offAfter P off (replicate n s) = off"
  by (induction n) auto

lemma offAfter_replicate:
  "offAfter Map.empty off (s # replicate n s) = off + length (Region s)"
  by (simp add: offAfter_known)

lemma length_Split_wrapSegment: "length (blocksOf P wrapSegment) = 65536"
proof -
  have "cell (StartIP wrapSegment) = 0" "cell (EndIP wrapSegment) = 65535"
    by (simp_all add: wrapSegment_def cell_def)
  then show ?thesis by (simp add: blocksOf_def Split_def)
qed

lemma bigSource_Start:
  "Start 12 (snd (Init 0 (NewMaker 0 bigSource)))
     = (None, snd (Start 12 (snd (Init 0 (NewMaker 0 bigSource)))))"
proof -
  have ne: "segments (snd (Init 0 (NewMaker 0 bigSource))) \<noteq> []"
    unfolding bigSource_Init(2) by simp
  have ok: "\<forall>s\<in>set (segments (snd (Init 0 (NewMaker 0 bigSource)))).
      length (Region s) \<le> 65535 \<and> Region s \<noteq> []"
    unfolding bigSource_Init(2) by (simp add: wrapSegment_def)
  from Start_ok [OF ne ok, of 12]
  have "\<exists>m'. Start 12 (snd (Init 0 (NewMaker 0 bigSource))) = (None, m')" by blast
  then show ?thesis by auto
qed

text \<open>
  The claim C2 as stated has bytes 12 to 15 equal to the offset of the last index
  block. \<open>Start\<close> converts the offset with \<open>uint32(endIndexPtr)\<close> (line 329). On the
  source of 4681 lines the last index block is written at 4295360755, beyond 2^32,
  and the header decodes to 393459.
\<close>

theorem header_truncates_counterexample:
  "fst (Init 0 (NewMaker 0 bigSource)) = None
   \<and> fst (Start 12 (snd (Init 0 (NewMaker 0 bigSource)))) = None
   \<and> fst (last (indexWrites (writes (dstHandle
        (snd (Start 12 (snd (Init 0 (NewMaker 0 bigSource)))))))))
       = 4295360755
   \<and> Uint32 (take 4 (drop 12 (content (dstHandle
        (snd (Start 12 (snd (Init 0 (NewMaker 0 bigSource)))))))))
       = Some 393459"
proof -
  define mI where "mI = snd (Init 0 (NewMaker 0 bigSource))"
  define mS where "mS = snd (Start 12 mI)"
  have I: "Init 0 (NewMaker 0 bigSource) = (None, mI)"
    unfolding mI_def by (rule bigSource_Init)
  have S: "Start 12 mI = (None, mS)"
    unfolding mS_def mI_def by (rule bigSource_Start)
  have segs: "segments mI = wrapSegment # replicate 4680 wrapSegment"
    unfolding mI_def bigSource_Init(2) by (rule replicate_4681)
  define bl where "bl = concat (map (blocksOf (poolAfter Map.empty 524544 (segments mI))) (segments mI))"
  have o1: "offAfter Map.empty 524544 (segments mI) = 524545"
    unfolding segs offAfter_replicate by (simp add: wrapSegment_def)
  have "length bl = 65536 * length (segments mI)"
    unfolding bl_def
    by (rule length_concat_uniform) (simp add: mI_def bigSource_Init(2) length_Split_wrapSegment)
  then have lb: "length bl = 306774016"
    by (simp add: mI_def bigSource_Init(2))
  then have bne: "bl \<noteq> []" by auto
  have es: "indexWrites (writes (dstHandle mS)) = place 524545 bl"
    unfolding build_indexWrites [OF I S] o1 bl_def ..
  have last: "fst (last (indexWrites (writes (dstHandle mS)))) = 4295360755"
    unfolding es place_last [OF bne] lb by simp
  have "Uint32 (take 4 (drop 12 (content (dstHandle mS))))
      = Some (of_nat (fst (last (indexWrites (writes (dstHandle mS))))))"
    using header_bytes [OF I S] by blast
  then have "Uint32 (take 4 (drop 12 (content (dstHandle mS)))) = Some 393459"
    unfolding last by simp
  with last I S show ?thesis
    unfolding mS_def [symmetric] mI_def [symmetric] by simp
qed

lemma vectorWrites_append [simp]: "vectorWrites (xs @ ys) = vectorWrites xs @ vectorWrites ys"
  by (induction xs rule: vectorWrites.induct) simp_all

lemma vectorWrites_WData [simp]: "vectorWrites (map (\<lambda>(p, r). WData p r) ds) = []"
  by (induction ds) auto

lemma vectorWrites_WIndex [simp]: "vectorWrites (map (\<lambda>(p, b). WIndex p b) es) = []"
  by (induction es) auto

lemma vectorWrites_row [simp]:
  "vectorWrites (map (\<lambda>j. WVector i j (l j)) js) = map (\<lambda>j. (i, j, l j)) js"
  by (induction js) auto

lemma vectorWrites_concat:
  "vectorWrites (concat (map g xs)) = concat (map (\<lambda>x. vectorWrites (g x)) xs)"
  by (induction xs) simp_all

lemma vectorWrites_gridEvents:
  "vectorWrites (gridEvents vi) = concat (map (\<lambda>i. map (\<lambda>j. (i, j, vi i j)) [0..<256]) [0..<256])"
  by (simp add: gridEvents_def vectorWrites_concat)

lemma concat_block:
  "\<forall>x\<in>set xs. length (g x) = n \<Longrightarrow> k < length xs \<Longrightarrow>
     take n (drop (n * k) (concat (map g xs))) = g (xs ! k)"
proof (induction xs arbitrary: k)
  case Nil
  then show ?case by simp
next
  case (Cons x xs)
  show ?case
  proof (cases k)
    case 0
    with Cons.prems show ?thesis by simp
  next
    case (Suc k')
    with Cons.prems have "take n (drop (n * k') (concat (map g xs))) = g (xs ! k')"
      by (intro Cons.IH) simp_all
    moreover have "n * k = length (g x) + n * k'" using Cons.prems Suc by simp
    ultimately show ?thesis using Suc by (simp del: mult_Suc_right)
  qed
qed

lemma take_drop_take: "d + n \<le> L \<Longrightarrow> take n (drop d (take L xs)) = take n (drop d xs)"
  by (simp add: drop_take min_def)

lemma gridBytes_cell:
  assumes "i < 256" "j < 256"
  shows "take 8 (drop ((i * 256 + j) * 8) (gridBytes vi)) = VectorIndexBlock_Encode (vi i j)"
proof -
  have row: "take 2048 (drop (2048 * i) (gridBytes vi)) = rowBytes (vi i)"
    unfolding gridBytes_def using assms
    by (subst concat_block [where n = 2048]) simp_all
  have cell: "take 8 (drop (8 * j) (rowBytes (vi i))) = VectorIndexBlock_Encode (vi i j)"
    unfolding rowBytes_def using assms
    by (subst concat_block [where n = 8]) simp_all
  have "take 8 (drop ((i * 256 + j) * 8) (gridBytes vi))
      = take 8 (drop (8 * j) (drop (2048 * i) (gridBytes vi)))"
    by (simp add: algebra_simps)
  also have "\<dots> = take 8 (drop (8 * j) (take 2048 (drop (2048 * i) (gridBytes vi))))"
    using assms by (subst take_drop_take) simp_all
  also have "\<dots> = VectorIndexBlock_Encode (vi i j)"
    unfolding row cell ..
  finally show ?thesis .
qed

lemma gridRecord_other:
  "(viRow (ibStartIP (snd e)), viCol (ibStartIP (snd e))) \<noteq> (i, j) \<Longrightarrow> gridRecord bs vi e i j = vi i j"
  by (auto simp: gridRecord_def Let_def)

lemma foldl_gridRecord_untouched:
  "\<forall>e\<in>set es. (viRow (ibStartIP (snd e)), viCol (ibStartIP (snd e))) \<noteq> (i, j) \<Longrightarrow>
     foldl (gridRecord bs) vi es i j = vi i j"
  by (induction es arbitrary: vi) (simp_all add: gridRecord_other)

lemma VectorIndexBlock_Encode_zero:
  "VectorIndexBlock_Encode \<lparr>FirstPtr = 0, LastPtr = 0\<rparr> = replicate 8 0"
  by (simp add: VectorIndexBlock_Encode_def PutUint32_def numeral_eq_Suc)

text \<open>
  C8. A successful \<open>Start\<close> writes the vector index as 65536 blocks of 8 bytes from
  byte 256 on, row by row: the block of row \<open>i\<close> (the top byte of an address) and
  column \<open>j\<close> (the second byte) lies at \<open>256 + (i * 256 + j) * 8\<close>, and the writes are
  issued in this order. A block that no index entry touched is \<open>(0, 0)\<close> and is
  written as eight zero bytes.
\<close>

theorem vector_index_written:
  assumes "Init now (NewMaker policy src) = (None, m)" and "Start bs m = (None, m')"
  shows "(\<forall>i<256. \<forall>j<256.
            take 8 (drop (256 + (i * 256 + j) * 8) (content (dstHandle m')))
              = VectorIndexBlock_Encode (vectorIndex m' i j))
     \<and> vectorWrites (writes (dstHandle m'))
          = concat (map (\<lambda>i. map (\<lambda>j. (i, j, vectorIndex m' i j)) [0..<256]) [0..<256])
     \<and> length (vectorWrites (writes (dstHandle m'))) = 65536
     \<and> (\<forall>i j. (\<forall>e\<in>set (indexWrites (writes (dstHandle m'))).
                   (viRow (ibStartIP (snd e)), viCol (ibStartIP (snd e))) \<noteq> (i, j)) \<longrightarrow>
            vectorIndex m' i j = \<lparr>FirstPtr = 0, LastPtr = 0\<rparr>
            \<and> VectorIndexBlock_Encode (vectorIndex m' i j) = replicate 8 0)"
proof -
  define o1 where "o1 = offAfter Map.empty 524544 (segments m)"
  define bl where "bl = concat (map (blocksOf (poolAfter Map.empty 524544 (segments m))) (segments m))"
  note B = build [OF assms, folded o1_def bl_def]
  define buff where "buff = PutUint32 (of_nat o1) @ PutUint32 (of_nat (o1 + 14 * (length bl - 1)))"
  from B(9) obtain c3 X where c: "content (dstHandle m') = store 8 buff X"
    and X: "X = store 256 (gridBytes (vectorIndex m')) c3"
    unfolding buff_def B(6) by blast
  have lb: "length buff = 8" by (simp add: buff_def)
  have bytes: "take 8 (drop (256 + (i * 256 + j) * 8) (content (dstHandle m')))
              = VectorIndexBlock_Encode (vectorIndex m' i j)" if "i < 256" "j < 256" for i j
  proof -
    define d where "d = (i * 256 + j) * 8"
    have d: "d + 8 \<le> 524288" using that by (simp add: d_def)
    have G: "take 524288 (drop 256 X) = gridBytes (vectorIndex m')"
      unfolding X using read_store [of "gridBytes (vectorIndex m')" 256 c3] by simp
    have "drop (256 + d) (content (dstHandle m')) = drop (256 + d) X"
      unfolding c by (rule drop_store_above) (simp add: lb)
    then have "take 8 (drop (256 + d) (content (dstHandle m'))) = take 8 (drop d (drop 256 X))"
      by (simp add: add.commute)
    also have "\<dots> = take 8 (drop d (take 524288 (drop 256 X)))"
      using d by (subst take_drop_take) simp_all
    also have "\<dots> = VectorIndexBlock_Encode (vectorIndex m' i j)"
      unfolding G d_def using that by (rule gridBytes_cell)
    finally show ?thesis by (simp add: d_def)
  qed
  have ev: "vectorWrites (writes (dstHandle m'))
          = concat (map (\<lambda>i. map (\<lambda>j. (i, j, vectorIndex m' i j)) [0..<256]) [0..<256])"
    unfolding B(8) B(6) [symmetric] by (simp add: vectorWrites_gridEvents)
  have len: "length (concat (map (\<lambda>i. map (\<lambda>j. (i, j, vectorIndex m' i j)) [0..<256]) [0..<256])) = 65536"
    by (subst length_concat_uniform [where n = 256]) simp_all
  have es: "indexWrites (writes (dstHandle m')) = place o1 bl"
    unfolding o1_def bl_def by (rule build_indexWrites [OF assms])
  have zero: "vectorIndex m' i j = \<lparr>FirstPtr = 0, LastPtr = 0\<rparr>
            \<and> VectorIndexBlock_Encode (vectorIndex m' i j) = replicate 8 0"
    if "\<forall>e\<in>set (indexWrites (writes (dstHandle m'))).
                   (viRow (ibStartIP (snd e)), viCol (ibStartIP (snd e))) \<noteq> (i, j)" for i j
  proof -
    have "vectorIndex m' i j = \<lparr>FirstPtr = 0, LastPtr = 0\<rparr>"
      unfolding B(6) using that [unfolded es] by (subst foldl_gridRecord_untouched) simp_all
    then show ?thesis by (simp add: VectorIndexBlock_Encode_zero)
  qed
  show ?thesis using bytes ev len zero by (simp only: ev) blast
qed

lemma example_vectorIndex:
  "vectorIndex (snd (Start 12 (snd (Init 0 (NewMaker 0 exampleSource))))) 1 1
     = \<lparr>FirstPtr = 524562, LastPtr = 524588\<rparr>"
  "vectorIndex (snd (Start 12 (snd (Init 0 (NewMaker 0 exampleSource))))) 1 0
     = \<lparr>FirstPtr = 524548, LastPtr = 524560\<rparr>"
  "vectorIndex (snd (Start 12 (snd (Init 0 (NewMaker 0 exampleSource))))) 1 2
     = \<lparr>FirstPtr = 524590, LastPtr = 524602\<rparr>"
  "vectorIndex (snd (Start 12 (snd (Init 0 (NewMaker 0 exampleSource))))) 0 0
     = \<lparr>FirstPtr = 0, LastPtr = 0\<rparr>"
proof -
  have v: "viRow 16777216 = 1" "viCol 16777216 = 0" "viRow 16842752 = 1" "viCol 16842752 = 1"
    "viRow 16843008 = 1" "viCol 16843008 = 1" "viRow 16908288 = 1" "viCol 16908288 = 2"
    by (simp_all add: viRow_def viCol_def)
  note B = build(6) [OF example_segments(1) example_Start,
      folded build_indexWrites [OF example_segments(1) example_Start], unfolded example_indexWrites]
  show "vectorIndex (snd (Start 12 (snd (Init 0 (NewMaker 0 exampleSource))))) 1 1
     = \<lparr>FirstPtr = 524562, LastPtr = 524588\<rparr>"
    "vectorIndex (snd (Start 12 (snd (Init 0 (NewMaker 0 exampleSource))))) 1 0
     = \<lparr>FirstPtr = 524548, LastPtr = 524560\<rparr>"
    "vectorIndex (snd (Start 12 (snd (Init 0 (NewMaker 0 exampleSource))))) 1 2
     = \<lparr>FirstPtr = 524590, LastPtr = 524602\<rparr>"
    "vectorIndex (snd (Start 12 (snd (Init 0 (NewMaker 0 exampleSource))))) 0 0
     = \<lparr>FirstPtr = 0, LastPtr = 0\<rparr>"
    unfolding B by (simp_all add: gridRecord_def v)
qed

theorem vector_index_written_witness:
  "Init 0 (NewMaker 0 exampleSource) = (None, snd (Init 0 (NewMaker 0 exampleSource)))
   \<and> Start 12 (snd (Init 0 (NewMaker 0 exampleSource)))
       = (None, snd (Start 12 (snd (Init 0 (NewMaker 0 exampleSource)))))
   \<and> take 8 (drop (256 + (1 * 256 + 1) * 8)
        (content (dstHandle (snd (Start 12 (snd (Init 0 (NewMaker 0 exampleSource))))))))
       = VectorIndexBlock_Encode \<lparr>FirstPtr = 524562, LastPtr = 524588\<rparr>
   \<and> take 8 (drop 256
        (content (dstHandle (snd (Start 12 (snd (Init 0 (NewMaker 0 exampleSource))))))))
       = replicate 8 0
   \<and> length (vectorWrites (writes (dstHandle (snd (Start 12 (snd (Init 0 (NewMaker 0 exampleSource))))))))
       = 65536"
proof -
  note T = vector_index_written [OF example_segments(1) example_Start]
  have a: "take 8 (drop (256 + (1 * 256 + 1) * 8)
        (content (dstHandle (snd (Start 12 (snd (Init 0 (NewMaker 0 exampleSource))))))))
       = VectorIndexBlock_Encode (vectorIndex (snd (Start 12 (snd (Init 0 (NewMaker 0 exampleSource))))) 1 1)"
    using T [THEN conjunct1, rule_format, of 1 1] by simp
  have "take 8 (drop (256 + (0 * 256 + 0) * 8)
        (content (dstHandle (snd (Start 12 (snd (Init 0 (NewMaker 0 exampleSource))))))))
       = VectorIndexBlock_Encode (vectorIndex (snd (Start 12 (snd (Init 0 (NewMaker 0 exampleSource))))) 0 0)"
    using T [THEN conjunct1, rule_format, of 0 0] by simp
  then have b: "take 8 (drop 256
        (content (dstHandle (snd (Start 12 (snd (Init 0 (NewMaker 0 exampleSource))))))))
       = replicate 8 0"
    by (simp add: example_vectorIndex VectorIndexBlock_Encode_zero)
  from T have c: "length (vectorWrites (writes (dstHandle (snd (Start 12 (snd (Init 0 (NewMaker 0 exampleSource))))))))
       = 65536" by blast
  show ?thesis
    using a b c example_segments(1) example_Start by (simp only: example_vectorIndex)
qed

lemma place_fst_ge: "e \<in> set (place off bl) \<Longrightarrow> off \<le> fst e"
proof (induction bl arbitrary: off)
  case Nil
  then show ?case by simp
next
  case (Cons b bl)
  from Cons.prems consider "e = (off, b)" | "e \<in> set (place (off + 14) bl)" by auto
  then show ?case
  proof cases
    case 1
    then show ?thesis by simp
  next
    case 2
    from Cons.IH [OF 2] show ?thesis by simp
  qed
qed

lemma unat_of_nat_le: "unat (of_nat p :: uint32) \<le> p"
  by (simp add: unat_of_nat)

text \<open>
  C7. In a successful \<open>Start\<close> after \<open>Init\<close> the writes are the header, then all
  region texts, then all index blocks, then writes of neither kind. The first region
  text is written at byte \<open>256 + 512 * 1024\<close> and no text below it; every text ends
  at or before the offset of every index block, and every offset in the region pool
  is smaller than the offset of every index block.
\<close>

theorem payload_before_index:
  assumes "Init now (NewMaker policy src) = (None, m)" and "Start bs m = (None, m')"
  shows "(\<exists>rest. writes (dstHandle m') =
            WHeader # map (\<lambda>(p, r). WData p r) (dataWrites (writes (dstHandle m')))
              @ map (\<lambda>(p, b). WIndex p b) (indexWrites (writes (dstHandle m'))) @ rest
            \<and> dataWrites rest = [] \<and> indexWrites rest = [])
     \<and> dataWrites (writes (dstHandle m')) \<noteq> []
     \<and> fst (hd (dataWrites (writes (dstHandle m')))) = 256 + 512 * 1024
     \<and> (\<forall>d\<in>set (dataWrites (writes (dstHandle m'))). 256 + 512 * 1024 \<le> fst d)
     \<and> (\<forall>d\<in>set (dataWrites (writes (dstHandle m'))).
           \<forall>e\<in>set (indexWrites (writes (dstHandle m'))). fst d + length (snd d) \<le> fst e)
     \<and> (\<forall>v\<in>ran (regionPool m'). \<forall>e\<in>set (indexWrites (writes (dstHandle m'))). unat v < fst e)"
proof -
  define segs where "segs = segments m"
  define o1 where "o1 = offAfter Map.empty 524544 segs"
  define P' where "P' = poolAfter Map.empty 524544 segs"
  define bl where "bl = concat (map (blocksOf P') segs)"
  define ds where "ds = regionWrites Map.empty 524544 segs"
  note B = build [OF assms, folded segs_def, folded o1_def P'_def, folded bl_def ds_def]
  have es: "indexWrites (writes (dstHandle m')) = place o1 bl"
    unfolding o1_def bl_def P'_def segs_def by (rule build_indexWrites [OF assms])
  have dw: "dataWrites (writes (dstHandle m')) = ds"
    unfolding ds_def segs_def by (rule build_dataWrites [OF assms])
  have shape: "\<exists>rest. writes (dstHandle m') =
            WHeader # map (\<lambda>(p, r). WData p r) ds @ map (\<lambda>(p, b). WIndex p b) (place o1 bl) @ rest
            \<and> dataWrites rest = [] \<and> indexWrites rest = []"
    unfolding B(8)
    by (rule exI [of _ "gridEvents (vectorIndex m') @ [WIndexPtr (of_nat o1) (of_nat (o1 + 14 * (length bl - 1)))]"])
      (simp add: B(6))
  obtain s ss where sg: "segs = s # ss" using B(1) by (cases segs) auto
  have d0: "ds \<noteq> []" "fst (hd ds) = 524544" by (simp_all add: ds_def sg)
  have dpos: "524544 \<le> fst d \<and> fst d + length (snd d) \<le> o1 \<and> snd d \<noteq> []" if "d \<in> set ds" for d
  proof -
    obtain p r where d: "d = (p, r)" by (cases d)
    with that have i: "(p, r) \<in> set (regionWrites Map.empty 524544 segs)" by (simp add: ds_def)
    from regionWrites_bounds [OF i] have b: "524544 \<le> p \<and> p + length r \<le> o1" by (simp add: o1_def)
    from i have "r \<in> snd ` set (regionWrites Map.empty 524544 segs)" by force
    then have "r \<in> Region ` set segs" by (simp add: regionWrites_regions)
    with B(2) have "r \<noteq> []" by (auto simp: wellformed_def)
    with b d show ?thesis by simp
  qed
  have epos: "o1 \<le> fst e" if "e \<in> set (place o1 bl)" for e
    using that by (rule place_fst_ge)
  have pool: "unat v < fst e" if v: "v \<in> ran (regionPool m')" and e: "e \<in> set (place o1 bl)" for v e
  proof -
    from v obtain r where "P' r = Some v" by (auto simp: ran_def B(5))
    from poolAfter_cases [OF this [unfolded P'_def]]
    obtain p where p: "(p, r) \<in> set ds" "v = of_nat p" by (auto simp: ds_def)
    from dpos [OF p(1)] have "p < o1" by (cases r) simp_all
    moreover have "unat v \<le> p" unfolding p by (rule unat_of_nat_le)
    ultimately show ?thesis using epos [OF e] by linarith
  qed
  have order: "fst d + length (snd d) \<le> fst e" if "d \<in> set ds" "e \<in> set (place o1 bl)" for d e
    using dpos [OF that(1)] epos [OF that(2)] by linarith
  show ?thesis
    unfolding es dw using shape d0 dpos order pool by simp
qed

lemma example_dataWrites:
  "dataWrites (writes (dstHandle (snd (Start 12 (snd (Init 0 (NewMaker 0 exampleSource)))))))
     = [(524544, ''CN''), (524546, ''US'')]"
  unfolding build_dataWrites [OF example_segments(1) example_Start] example_segments(2)
  by simp

lemma example_regionPool:
  "regionPool (snd (Start 12 (snd (Init 0 (NewMaker 0 exampleSource))))) ''CN'' = Some 524544"
  "regionPool (snd (Start 12 (snd (Init 0 (NewMaker 0 exampleSource))))) ''US'' = Some 524546"
  unfolding build(5) [OF example_segments(1) example_Start] example_segments(2)
  by simp_all

theorem payload_before_index_witness:
  "Init 0 (NewMaker 0 exampleSource) = (None, snd (Init 0 (NewMaker 0 exampleSource)))
   \<and> Start 12 (snd (Init 0 (NewMaker 0 exampleSource)))
       = (None, snd (Start 12 (snd (Init 0 (NewMaker 0 exampleSource)))))
   \<and> dataWrites (writes (dstHandle (snd (Start 12 (snd (Init 0 (NewMaker 0 exampleSource)))))))
       = [(524544, ''CN''), (524546, ''US'')]
   \<and> map fst (indexWrites (writes (dstHandle (snd (Start 12 (snd (Init 0 (NewMaker 0 exampleSource))))))))
       = [524548, 524562, 524576, 524590]
   \<and> fst (hd (dataWrites (writes (dstHandle (snd (Start 12 (snd (Init 0 (NewMaker 0 exampleSource)))))))))
       = 256 + 512 * 1024
   \<and> (\<exists>rest. writes (dstHandle (snd (Start 12 (snd (Init 0 (NewMaker 0 exampleSource)))))) =
         WHeader # map (\<lambda>(p, r). WData p r) [(524544, ''CN''), (524546, ''US'')]
           @ map (\<lambda>(p, b). WIndex p b)
               (indexWrites (writes (dstHandle (snd (Start 12 (snd (Init 0 (NewMaker 0 exampleSource))))))))
           @ rest)"
  using payload_before_index [OF example_segments(1) example_Start]
    example_segments(1) example_Start
  unfolding example_dataWrites
  by (auto simp: example_indexWrites)

subsection \<open>The region pool\<close>

lemma filter_snd_singleton:
  "distinct (map snd ds) \<Longrightarrow> (p, r) \<in> set ds \<Longrightarrow> filter (\<lambda>d. snd d = r) ds = [(p, r)]"
proof (induction ds)
  case Nil
  then show ?case by simp
next
  case (Cons d ds)
  show ?case
  proof (cases "d = (p, r)")
    case True
    with Cons.prems have "r \<notin> snd ` set ds" by simp
    then have "filter (\<lambda>d. snd d = r) ds = []"
      by (auto simp: filter_empty_conv)
    with True show ?thesis by simp
  next
    case False
    with Cons.prems have i: "(p, r) \<in> set ds" by simp
    then have "r \<in> snd ` set ds" by force
    with Cons.prems have "snd d \<noteq> r" by auto
    with Cons.IH i Cons.prems show ?thesis by simp
  qed
qed

text \<open>
  C3, as amended. After \<open>Init\<close> and a successful \<open>Start\<close>, the index blocks are, range
  by range and piece by piece of \<open>Split\<close>, the blocks whose text length is the length
  of the range's region and whose text offset is the pool's offset of that region: so
  ranges with the same text have the same length and offset in all their blocks. Every
  range has at least one block, the pool's offset of its region is the offset of a
  write of that text, and that text is written exactly once. N ranges with one text
  give one write and, with one block per piece, at least N blocks with that offset.
\<close>

theorem region_dedup:
  assumes "Init now (NewMaker policy src) = (None, m)" and "Start bs m = (None, m')"
  shows "map snd (indexWrites (writes (dstHandle m')))
       = concat (map (\<lambda>seg. map (\<lambda>s. \<lparr>ibStartIP = StartIP s, ibEndIP = EndIP s,
                                        DataLen = of_nat (length (Region seg)),
                                        DataPtr = the (regionPool m' (Region seg))\<rparr>) (Split seg))
                  (segments m))
     \<and> (\<forall>seg\<in>set (segments m). Split seg \<noteq> []
           \<and> (\<exists>p. regionPool m' (Region seg) = Some (of_nat p)
                 \<and> filter (\<lambda>d. snd d = Region seg) (dataWrites (writes (dstHandle m')))
                     = [(p, Region seg)]))
     \<and> snd ` set (dataWrites (writes (dstHandle m'))) = Region ` set (segments m)"
proof -
  define segs where "segs = segments m"
  define o1 where "o1 = offAfter Map.empty 524544 segs"
  define P' where "P' = poolAfter Map.empty 524544 segs"
  define bl where "bl = concat (map (blocksOf P') segs)"
  define ds where "ds = regionWrites Map.empty 524544 segs"
  note B = build [OF assms, folded segs_def, folded o1_def P'_def, folded bl_def ds_def]
  have es: "indexWrites (writes (dstHandle m')) = place o1 bl"
    unfolding o1_def bl_def P'_def segs_def by (rule build_indexWrites [OF assms])
  have dw: "dataWrites (writes (dstHandle m')) = ds"
    unfolding ds_def segs_def by (rule build_dataWrites [OF assms])
  have blocks: "map snd (place o1 bl)
       = concat (map (\<lambda>seg. map (\<lambda>s. \<lparr>ibStartIP = StartIP s, ibEndIP = EndIP s,
                                        DataLen = of_nat (length (Region seg)),
                                        DataPtr = the (P' (Region seg))\<rparr>) (Split seg)) segs)"
    by (simp add: bl_def blocksOf_def [abs_def])
  have regions: "snd ` set ds = Region ` set segs"
    by (simp add: ds_def regionWrites_regions)
  have one: "Split seg \<noteq> [] \<and> (\<exists>p. P' (Region seg) = Some (of_nat p)
                 \<and> filter (\<lambda>d. snd d = Region seg) ds = [(p, Region seg)])"
    if "seg \<in> set segs" for seg
  proof -
    from that B(2) have "Split seg \<noteq> []" by (simp add: wellformed_def Split_nonempty)
    moreover from that regions obtain p where p: "(p, Region seg) \<in> set ds" by force
    then have "P' (Region seg) = Some (of_nat p)"
      unfolding P'_def ds_def by (rule poolAfter_new)
    moreover have "filter (\<lambda>d. snd d = Region seg) ds = [(p, Region seg)]"
      using p by (intro filter_snd_singleton) (simp add: ds_def regionWrites_distinct)
    ultimately show ?thesis by blast
  qed
  show ?thesis
    unfolding es dw B(5) segs_def [symmetric] using blocks regions one by blast
qed

theorem region_dedup_witness:
  "Init 0 (NewMaker 0 exampleSource) = (None, snd (Init 0 (NewMaker 0 exampleSource)))
   \<and> Start 12 (snd (Init 0 (NewMaker 0 exampleSource)))
       = (None, snd (Start 12 (snd (Init 0 (NewMaker 0 exampleSource)))))
   \<and> map (\<lambda>e. (DataLen (snd e), DataPtr (snd e)))
        (indexWrites (writes (dstHandle (snd (Start 12 (snd (Init 0 (NewMaker 0 exampleSource))))))))
       = [(2, 524544), (2, 524546), (2, 524544), (2, 524544)]
   \<and> filter (\<lambda>d. snd d = ''CN'')
        (dataWrites (writes (dstHandle (snd (Start 12 (snd (Init 0 (NewMaker 0 exampleSource))))))))
       = [(524544, ''CN'')]
   \<and> snd ` set (dataWrites (writes (dstHandle (snd (Start 12 (snd (Init 0 (NewMaker 0 exampleSource))))))))
       = Region ` set (segments (snd (Init 0 (NewMaker 0 exampleSource))))"
  using region_dedup [OF example_segments(1) example_Start]
    example_segments(1) example_Start
  by (simp add: example_indexWrites example_dataWrites)

text \<open>
  The claim C3 as stated counts N references for N ranges. In the example source two
  ranges have the region CN, written once at 524544; the second of them spans two
  cells, and three index blocks hold the offset 524544.
\<close>

theorem region_references_counterexample:
  "fst (Init 0 (NewMaker 0 exampleSource)) = None
   \<and> fst (Start 12 (snd (Init 0 (NewMaker 0 exampleSource)))) = None
   \<and> length (filter (\<lambda>s. Region s = ''CN'') (segments (snd (Init 0 (NewMaker 0 exampleSource))))) = 2
   \<and> regionPool (snd (Start 12 (snd (Init 0 (NewMaker 0 exampleSource))))) ''CN'' = Some 524544
   \<and> length (filter (\<lambda>e. DataPtr (snd e) = 524544)
        (indexWrites (writes (dstHandle (snd (Start 12 (snd (Init 0 (NewMaker 0 exampleSource)))))))))
       = 3
   \<and> length (filter (\<lambda>e. DataPtr (snd e) = 524544)
        (indexWrites (writes (dstHandle (snd (Start 12 (snd (Init 0 (NewMaker 0 exampleSource)))))))))
       \<noteq> length (filter (\<lambda>s. Region s = ''CN'') (segments (snd (Init 0 (NewMaker 0 exampleSource)))))"
proof -
  have "fst (Init 0 (NewMaker 0 exampleSource)) = None"
    by (subst example_segments(1)) simp
  moreover have "fst (Start 12 (snd (Init 0 (NewMaker 0 exampleSource)))) = None"
    by (subst example_Start) simp
  ultimately show ?thesis
    by (simp add: example_indexWrites example_segments(2) example_regionPool)
qed

subsection \<open>A region that is too long\<close>

lemma Start_too_long:
  assumes pool: "regionPool m = Map.empty"
    and segs: "segments m = pre @ seg # post"
    and short: "\<forall>s\<in>set pre. length (Region s) \<le> 65535"
    and long: "65535 < length (Region seg)"
  shows "\<exists>m'. Start bs m = (Some (TooLongRegion (Region seg)), m')
     \<and> writes (dstHandle m') = writes (dstHandle m)
          @ map (\<lambda>(p, r). WData p r) (regionWrites Map.empty 524544 pre)
     \<and> Region seg \<notin> snd ` set (regionWrites Map.empty 524544 pre)"
proof -
  define m1 where "m1 = m\<lparr>dstHandle := fseek (HeaderInfoLength + VectorIndexLength) (dstHandle m)\<rparr>"
  have m1: "regionPool m1 = Map.empty" "offset (dstHandle m1) = 524544"
    "segments m1 = pre @ seg # post" "writes (dstHandle m1) = writes (dstHandle m)"
    by (simp_all add: m1_def fseek_def HeaderInfoLength_def VectorIndexLength_def
        VectorIndexRows_def VectorIndexCols_def VectorIndexSize_def pool segs)
  from writeRegions_ok [OF short, of m1, unfolded m1] obtain m2 where
    w: "writeRegions pre m1 = (None, m2)"
    and p: "regionPool m2 = poolAfter Map.empty 524544 pre"
    and t: "writes (dstHandle m2) = writes (dstHandle m)
          @ map (\<lambda>(p, r). WData p r) (regionWrites Map.empty 524544 pre)"
    by blast
  have notin: "Region seg \<notin> Region ` set pre" using short long by force
  then have none: "regionPool m2 (Region seg) = None"
    using poolAfter_dom [of Map.empty 524544 pre] by (auto simp: p)
  have "writeRegions (seg # post) m2 = (Some (TooLongRegion (Region seg)), m2)"
    using none long by (simp add: Let_def)
  with w have "writeRegions (segments m1) m1 = (Some (TooLongRegion (Region seg)), m2)"
    by (simp add: m1 writeRegions_append)
  moreover have "\<not> length (segments m) < 1" by (simp add: segs)
  ultimately have "Start bs m = (Some (TooLongRegion (Region seg)), m2)"
    unfolding Start_def by (simp add: Let_def m1_def [symmetric])
  moreover have "Region seg \<notin> snd ` set (regionWrites Map.empty 524544 pre)"
    using notin by (simp add: regionWrites_regions)
  ultimately show ?thesis using t by blast
qed

lemma Start_not_too_long:
  assumes "\<forall>seg\<in>set (segments m). length (Region seg) \<le> 65535"
  shows "fst (Start bs m) \<noteq> Some (TooLongRegion r)"
proof (cases "length (segments m) < 1")
  case True
  then show ?thesis by (simp add: Start_def)
next
  case False
  define m1 where "m1 = m\<lparr>dstHandle := fseek (HeaderInfoLength + VectorIndexLength) (dstHandle m)\<rparr>"
  have "\<forall>s\<in>set (segments m1). length (Region s) \<le> 65535" using assms by (simp add: m1_def)
  from writeRegions_ok [OF this, of m1] obtain m2 where
    w: "writeRegions (segments m1) m1 = (None, m2)" by blast
  show ?thesis
  proof (cases "writeIndex bs (segments m2) \<lparr>maker = m2, counter = 0, startIndexPtr = - 1, endIndexPtr = - 1\<rparr>")
    case (Pair e st)
    show ?thesis
    proof (cases e)
      case None
      with Pair False w show ?thesis
        by (simp add: Start_def Let_def m1_def [symmetric])
    next
      case (Some err)
      with Pair have "writeIndex bs (segments m2)
          \<lparr>maker = m2, counter = 0, startIndexPtr = - 1, endIndexPtr = - 1\<rparr> = (Some err, st)"
        by simp
      from writeIndex_error [OF this] have "err \<noteq> TooLongRegion r" by auto
      with Pair Some False w show ?thesis
        by (simp add: Start_def Let_def m1_def [symmetric])
    qed
  qed
qed



subsection \<open>What the accumulator holds after a pass\<close>

lemma foldl_gridRecord_cell:
  assumes "\<forall>e\<in>set es. (of_nat (fst e) :: uint32) \<noteq> 0"
  shows "foldl (gridRecord bs) (\<lambda>i j. \<lparr>FirstPtr = 0, LastPtr = 0\<rparr>) es i j =
     (if filter (touches i j) es = [] then \<lparr>FirstPtr = 0, LastPtr = 0\<rparr>
      else \<lparr>FirstPtr = of_nat (fst (hd (filter (touches i j) es))),
            LastPtr = of_nat (fst (last (filter (touches i j) es))) + bs\<rparr>)"
  using assms
proof (induction es rule: rev_induct)
  case Nil
  show ?case by simp
next
  case (snoc e es)
  define vi where "vi = foldl (gridRecord bs) (\<lambda>i j. \<lparr>FirstPtr = 0, LastPtr = 0\<rparr>) es"
  define K where "K = filter (touches i j) es"
  have IH: "vi i j = (if K = [] then \<lparr>FirstPtr = 0, LastPtr = 0\<rparr>
      else \<lparr>FirstPtr = of_nat (fst (hd K)), LastPtr = of_nat (fst (last K)) + bs\<rparr>)"
    unfolding vi_def K_def using snoc by simp
  have step: "foldl (gridRecord bs) (\<lambda>i j. \<lparr>FirstPtr = 0, LastPtr = 0\<rparr>) (es @ [e]) = gridRecord bs vi e"
    by (simp add: vi_def)
  show ?case
  proof (cases "touches i j e")
    case False
    then have "gridRecord bs vi e i j = vi i j"
      by (intro gridRecord_other) (auto simp: touches_def)
    with False IH show ?thesis unfolding step by (simp add: K_def)
  next
    case True
    then have ij: "viRow (ibStartIP (snd e)) = i" "viCol (ibStartIP (snd e)) = j"
      by (simp_all add: touches_def)
    have f: "filter (touches i j) (es @ [e]) = K @ [e]" using True by (simp add: K_def)
    show ?thesis
    proof (cases "K = []")
      case True
      with IH have "FirstPtr (vi i j) = 0" by simp
      then have "gridRecord bs vi e i j = \<lparr>FirstPtr = of_nat (fst e), LastPtr = of_nat (fst e) + bs\<rparr>"
        by (simp add: gridRecord_def Let_def ij)
      with True show ?thesis unfolding step f by simp
    next
      case False
      then have "hd K \<in> set es" using hd_in_set [of K] by (auto simp: K_def)
      with snoc.prems have nz: "(of_nat (fst (hd K)) :: uint32) \<noteq> 0" by simp
      with False IH have "FirstPtr (vi i j) \<noteq> 0" "FirstPtr (vi i j) = of_nat (fst (hd K))" by simp_all
      then have "gridRecord bs vi e i j = \<lparr>FirstPtr = of_nat (fst (hd K)), LastPtr = of_nat (fst e) + bs\<rparr>"
        by (simp add: gridRecord_def Let_def ij)
      with False show ?thesis unfolding step f by simp
    qed
  qed
qed

subsection \<open>A run in a sorted list\<close>

lemma sorted_pairs_mono:
  fixes es :: "(nat \<times> 'a) list" and key :: "'a \<Rightarrow> nat"
  assumes "sorted_wrt (<) (map fst es)" and "sorted (map (\<lambda>e. key (snd e)) es)"
    and "a \<in> set es" "b \<in> set es" "fst a < fst b"
  shows "key (snd a) \<le> key (snd b)"
  using assms
proof (induction es)
  case Nil
  then show ?case by simp
next
  case (Cons x xs)
  from Cons.prems(1) have px: "\<forall>y\<in>set xs. fst x < fst y" and ps: "sorted_wrt (<) (map fst xs)"
    by auto
  from Cons.prems(2) have kx: "\<forall>y\<in>set xs. key (snd x) \<le> key (snd y)"
    and ks: "sorted (map (\<lambda>e. key (snd e)) xs)"
    by auto
  consider "a = x" "b = x" | "a = x" "b \<in> set xs" | "a \<in> set xs" "b = x" | "a \<in> set xs" "b \<in> set xs"
    using Cons.prems(3,4) by auto
  then show ?case
  proof cases
    case 1
    then show ?thesis by simp
  next
    case 2
    with kx show ?thesis by simp
  next
    case 3
    with px Cons.prems(5) show ?thesis by force
  next
    case 4
    with Cons.IH [OF ps ks] Cons.prems(5) show ?thesis by simp
  qed
qed

lemma sorted_pairs_inj:
  fixes es :: "(nat \<times> 'a) list"
  assumes "sorted_wrt (<) (map fst es)" and "a \<in> set es" "b \<in> set es" "fst a = fst b"
  shows "a = b"
proof -
  from assms(1) have "distinct (map fst es)" by (simp add: strict_sorted_iff)
  then have "inj_on fst (set es)" by (simp add: distinct_map)
  with assms(2-) show ?thesis by (auto dest: inj_onD)
qed

lemma sorted_pairs_hd_last:
  fixes K :: "(nat \<times> 'a) list"
  assumes "sorted_wrt (<) (map fst K)" and "e \<in> set K"
  shows "fst (hd K) \<le> fst e \<and> fst e \<le> fst (last K)"
proof -
  from assms(2) have ne: "K \<noteq> []" by auto
  have "fst (hd K) \<le> fst e"
  proof (cases K)
    case Nil
    with ne show ?thesis by simp
  next
    case (Cons x xs)
    with assms show ?thesis by auto
  qed
  moreover have "fst e \<le> fst (last K)"
  proof (cases K rule: rev_cases)
    case Nil
    with ne show ?thesis by simp
  next
    case (snoc xs y)
    with assms show ?thesis by (auto simp: sorted_wrt_append)
  qed
  ultimately show ?thesis ..
qed

lemma run_bracket:
  fixes es :: "(nat \<times> 'a) list" and key :: "'a \<Rightarrow> nat"
  assumes pos: "sorted_wrt (<) (map fst es)" and keys: "sorted (map (\<lambda>e. key (snd e)) es)"
    and K: "K = filter (\<lambda>e. key (snd e) = c) es" "K \<noteq> []"
    and e: "e \<in> set es"
  shows "(key (snd e) = c) = (fst (hd K) \<le> fst e \<and> fst e \<le> fst (last K))"
proof
  have sK: "sorted_wrt (<) (map fst K)"
    unfolding K(1) using pos by (simp add: sorted_wrt_map sorted_wrt_filter)
  {
    assume "key (snd e) = c"
    with e have "e \<in> set K" by (simp add: K)
    with sK show "fst (hd K) \<le> fst e \<and> fst e \<le> fst (last K)" by (rule sorted_pairs_hd_last)
  }
  {
    assume b: "fst (hd K) \<le> fst e \<and> fst e \<le> fst (last K)"
    have h: "hd K \<in> set es" "key (snd (hd K)) = c"
      using hd_in_set [OF K(2)] by (simp_all add: K(1))
    have l: "last K \<in> set es" "key (snd (last K)) = c"
      using last_in_set [OF K(2)] by (simp_all add: K(1))
    have lo: "c \<le> key (snd e)"
    proof (cases "fst (hd K) = fst e")
      case True
      from sorted_pairs_inj [OF pos h(1) e True] h show ?thesis by simp
    next
      case False
      with b have "fst (hd K) < fst e" by simp
      from sorted_pairs_mono [OF pos keys h(1) e this] h show ?thesis by simp
    qed
    have hi: "key (snd e) \<le> c"
    proof (cases "fst e = fst (last K)")
      case True
      from sorted_pairs_inj [OF pos e l(1) True] l show ?thesis by simp
    next
      case False
      with b have "fst e < fst (last K)" by simp
      from sorted_pairs_mono [OF pos keys e l(1) this] l show ?thesis by simp
    qed
    from lo hi show "key (snd e) = c" by simp
  }
qed

lemma place_sorted: "sorted_wrt (<) (map fst (place off bl))"
proof (induction bl arbitrary: off)
  case Nil
  show ?case by simp
next
  case (Cons b bl)
  have "off < fst e" if "e \<in> set (place (off + 14) bl)" for e
    using place_fst_ge [OF that] by simp
  with Cons.IH [of "off + 14"] show ?case by auto
qed

lemma place_fst_le: "e \<in> set (place off bl) \<Longrightarrow> fst e \<le> off + 14 * (length bl - 1)"
proof (induction bl arbitrary: off)
  case Nil
  then show ?case by simp
next
  case (Cons b bl)
  from Cons.prems consider "e = (off, b)" | "e \<in> set (place (off + 14) bl)" by auto
  then show ?case
  proof cases
    case 1
    then show ?thesis by simp
  next
    case 2
    then have "bl \<noteq> []" by auto
    then have "14 + 14 * (length bl - 1) = 14 * length bl" by (cases bl) simp_all
    with Cons.IH [OF 2] show ?thesis by simp
  qed
qed




lemma viRow_cell: "viRow ip = cell ip div 256"
proof -
  have "drop_bit 24 ip AND 0xFF = take_bit 8 (drop_bit 24 ip)"
    by (simp add: take_bit_eq_mask mask_numeral)
  then have "viRow ip = unat (take_bit 8 (drop_bit 24 ip))" by (simp add: viRow_def)
  also have "\<dots> = (unat ip div 2 ^ 24) mod 2 ^ 8"
    by (simp add: take_bit_eq_mod drop_bit_eq_div unat_div unat_mod)
  also have "\<dots> = unat ip div 2 ^ 24"
  proof -
    have "unat ip < 2 ^ 32" using unsigned_less [of ip] by simp
    then have "unat ip div 2 ^ 24 < 2 ^ 8" by (simp add: less_mult_imp_div_less)
    then show ?thesis by simp
  qed
  also have "\<dots> = cell ip div 256" by (simp add: cell_def div_mult2_eq)
  finally show ?thesis .
qed

lemma viCol_cell: "viCol ip = cell ip mod 256"
proof -
  have "drop_bit 16 ip AND 0xFF = take_bit 8 (drop_bit 16 ip)"
    by (simp add: take_bit_eq_mask mask_numeral)
  then have "viCol ip = unat (take_bit 8 (drop_bit 16 ip))" by (simp add: viCol_def)
  also have "\<dots> = (unat ip div 2 ^ 16) mod 2 ^ 8"
    by (simp add: take_bit_eq_mod drop_bit_eq_div unat_div unat_mod)
  also have "\<dots> = cell ip mod 256" by (simp add: cell_def)
  finally show ?thesis .
qed

lemma same_cell: "(viRow a = viRow b \<and> viCol a = viCol b) = (cell a = cell b)"
proof
  assume "viRow a = viRow b \<and> viCol a = viCol b"
  then have "cell a div 256 = cell b div 256" "cell a mod 256 = cell b mod 256"
    by (simp_all add: viRow_cell viCol_cell)
  then have "cell a div 256 * 256 + cell a mod 256 = cell b div 256 * 256 + cell b mod 256"
    by simp
  then show "cell a = cell b" by (simp only: div_mult_mod_eq)
next
  assume "cell a = cell b"
  then show "viRow a = viRow b \<and> viCol a = viCol b"
    by (simp add: viRow_cell viCol_cell)
qed

lemma cell_less: "cell ip < 65536"
proof -
  have "unat ip < 2 ^ 32" using unsigned_less [of ip] by simp
  then show ?thesis by (simp add: cell_def less_mult_imp_div_less)
qed

lemma cell_of_nat_low:
  assumes "c < 65536"
  shows "cell (of_nat (c * 65536)) = c"
proof -
  have "unat (of_nat (c * 65536) :: uint32) = c * 65536"
    using assms by (intro unat_of_nat32) simp
  then show ?thesis unfolding cell_def by simp
qed

lemma cell_of_nat_high:
  assumes "c < 65536"
  shows "cell (of_nat (c * 65536 + 65535)) = c"
proof -
  have "unat (of_nat (c * 65536 + 65535) :: uint32) = c * 65536 + 65535"
    using assms by (intro unat_of_nat32) simp
  then show ?thesis unfolding cell_def by simp
qed

lemma cell_of_nat_low': "c < 65536 \<Longrightarrow> cell (of_nat c * 65536) = c"
  using cell_of_nat_low [of c] by simp

lemma cell_of_nat_high': "c < 65536 \<Longrightarrow> cell (of_nat c * 65536 + 65535) = c"
  using cell_of_nat_high [of c] by simp



lemma no_wrap_step:
  fixes a b c :: uint32
  assumes "a \<le> b" "b + 1 = c" "a < c"
  shows "b < c"
proof -
  have "b + 1 \<le> b + 1" by simp
  then consider "b = - 1" | "b < b + 1" using inc_less_eq_iff [of b "b + 1"] by auto
  then show ?thesis
  proof cases
    case 1
    with assms(2) have "c = 0" by simp
    with assms(3) show ?thesis by simp
  next
    case 2
    with assms(2) show ?thesis by simp
  qed
qed



lemma chain_Cons: "chain prev (s # ss) \<Longrightarrow> chain (Some s) ss"
  by simp

lemma chain_None: "chain prev ss \<Longrightarrow> chain None ss"
  by (cases ss) simp_all

lemma ordered_from_chain:
  assumes "chain None segs" "ascending segs" "\<forall>s\<in>set segs. StartIP s \<le> EndIP s"
  shows "sorted_wrt (\<lambda>a b. EndIP a < StartIP b) segs"
  using assms
proof (induction segs)
  case Nil
  show ?case by simp
next
  case (Cons a segs)
  show ?case
  proof (cases segs)
    case Nil
    then show ?thesis by simp
  next
    case (Cons b rest)
    from Cons.prems Cons have ab: "EndIP a + 1 = StartIP b" "StartIP a < StartIP b"
      "StartIP a \<le> EndIP a" "StartIP b \<le> EndIP b"
      by simp_all
    have lt: "EndIP a < StartIP b" by (rule no_wrap_step [OF ab(3) ab(1) ab(2)])
    have "chain None segs" using Cons.prems(1) Cons by simp
    moreover have "ascending segs" using Cons.prems(2) Cons by simp
    ultimately have IH: "sorted_wrt (\<lambda>a b. EndIP a < StartIP b) segs"
      using Cons.prems(3) by (intro Cons.IH) simp_all
    have "EndIP a < StartIP x" if "x \<in> set segs" for x
    proof (cases "x = b")
      case True
      with lt show ?thesis by simp
    next
      case False
      with that Cons have "x \<in> set rest" by simp
      with IH Cons have "EndIP b < StartIP x" by simp
      with lt ab show ?thesis by simp
    qed
    with IH show ?thesis by simp
  qed
qed



lemma Split_cells:
  assumes "StartIP seg \<le> EndIP seg"
  shows "map (\<lambda>s. cell (StartIP s)) (Split seg) = [cell (StartIP seg)..<Suc (cell (EndIP seg))]"
    and "\<forall>s\<in>set (Split seg). cell (EndIP s) = cell (StartIP s)"
proof -
  have c: "c < 65536" if "c < Suc (cell (EndIP seg))" for c
    using that cell_less [of "EndIP seg"] by simp
  show "map (\<lambda>s. cell (StartIP s)) (Split seg) = [cell (StartIP seg)..<Suc (cell (EndIP seg))]"
  proof -
    have "cell (if x = cell (StartIP seg) then StartIP seg else of_nat (x * 65536)) = x"
      if "x \<in> set [cell (StartIP seg)..<Suc (cell (EndIP seg))]" for x
    proof -
      from that have "x < 65536" by (intro c) auto
      then show ?thesis by (simp add: cell_of_nat_low')
    qed
    then have "map (\<lambda>x. cell (if x = cell (StartIP seg) then StartIP seg else of_nat (x * 65536)))
        [cell (StartIP seg)..<Suc (cell (EndIP seg))] = [cell (StartIP seg)..<Suc (cell (EndIP seg))]"
      by (intro map_idI) blast
    then show ?thesis by (simp add: Split_def comp_def)
  qed
  show "\<forall>s\<in>set (Split seg). cell (EndIP s) = cell (StartIP s)"
  proof
    fix s assume "s \<in> set (Split seg)"
    then have "s \<in> (\<lambda>c. \<lparr>StartIP = (if c = cell (StartIP seg) then StartIP seg else of_nat (c * 65536)),
               EndIP = (if c = cell (EndIP seg) then EndIP seg else of_nat (c * 65536 + 65535)),
               Region = Region seg\<rparr>) ` set [cell (StartIP seg)..<Suc (cell (EndIP seg))]"
      unfolding Split_def by (simp only: set_map)
    then obtain x where x: "x \<in> set [cell (StartIP seg)..<Suc (cell (EndIP seg))]"
      and sx: "s = \<lparr>StartIP = (if x = cell (StartIP seg) then StartIP seg else of_nat (x * 65536)),
               EndIP = (if x = cell (EndIP seg) then EndIP seg else of_nat (x * 65536 + 65535)),
               Region = Region seg\<rparr>"
      by (rule imageE)
    have s: "StartIP s = (if x = cell (StartIP seg) then StartIP seg else of_nat (x * 65536))"
        "EndIP s = (if x = cell (EndIP seg) then EndIP seg else of_nat (x * 65536 + 65535))"
      unfolding sx by simp_all
    from x have lt: "x < 65536" by (intro c) auto
    have "cell (StartIP s) = x" unfolding s(1) using lt by (simp add: cell_of_nat_low')
    moreover have "cell (EndIP s) = x" unfolding s(2) using lt by (simp add: cell_of_nat_high')
    ultimately show "cell (EndIP s) = cell (StartIP s)" by simp
  qed
qed




lemma cells_sorted:
  assumes "sorted_wrt (\<lambda>a b. EndIP a < StartIP b) segs" "\<forall>s\<in>set segs. StartIP s \<le> EndIP s"
  shows "sorted (concat (map (\<lambda>seg. [cell (StartIP seg)..<Suc (cell (EndIP seg))]) segs))"
  using assms
proof (induction segs)
  case Nil
  show ?case by simp
next
  case (Cons a segs)
  define rest where "rest = concat (map (\<lambda>seg. [cell (StartIP seg)..<Suc (cell (EndIP seg))]) segs)"
  have lo: "cell (EndIP a) \<le> y" if "y \<in> set rest" for y
  proof -
    from that have "y \<in> (\<Union>b\<in>set segs. set [cell (StartIP b)..<Suc (cell (EndIP b))])"
      unfolding rest_def by (simp only: set_concat set_map image_image)
    then obtain b where b: "b \<in> set segs" "y \<in> set [cell (StartIP b)..<Suc (cell (EndIP b))]"
      by blast
    from b(2) have y: "cell (StartIP b) \<le> y" by (simp only: set_upt atLeastLessThan_iff)
    from Cons.prems(1) b(1) have "EndIP a < StartIP b" by simp
    then have "EndIP a \<le> StartIP b" by simp
    then have "cell (EndIP a) \<le> cell (StartIP b)" by (rule cell_mono)
    with y show ?thesis by simp
  qed
  have "\<forall>x\<in>set [cell (StartIP a)..<Suc (cell (EndIP a))]. \<forall>y\<in>set rest. x \<le> y"
  proof (intro ballI)
    fix x y assume "x \<in> set [cell (StartIP a)..<Suc (cell (EndIP a))]" "y \<in> set rest"
    then have "x \<le> cell (EndIP a)" "cell (EndIP a) \<le> y"
      using lo by (simp_all only: set_upt atLeastLessThan_iff less_Suc_eq_le)
    then show "x \<le> y" by simp
  qed
  moreover have "sorted rest"
    unfolding rest_def using Cons by simp
  ultimately have "sorted ([cell (StartIP a)..<Suc (cell (EndIP a))] @ rest)"
    by (simp only: sorted_append sorted_upt)
  then show ?case by (simp add: rest_def)
qed

lemma blocksOf_cells:
  "map (\<lambda>b. cell (ibStartIP b)) (blocksOf P seg) = map (\<lambda>s. cell (StartIP s)) (Split seg)"
  "StartIP seg \<le> EndIP seg \<Longrightarrow> \<forall>b\<in>set (blocksOf P seg). cell (ibEndIP b) = cell (ibStartIP b)"
proof -
  show "map (\<lambda>b. cell (ibStartIP b)) (blocksOf P seg) = map (\<lambda>s. cell (StartIP s)) (Split seg)"
    by (simp add: blocksOf_def comp_def)
  assume "StartIP seg \<le> EndIP seg"
  from Split_cells(2) [OF this]
  show "\<forall>b\<in>set (blocksOf P seg). cell (ibEndIP b) = cell (ibStartIP b)"
    by (simp add: blocksOf_def)
qed

lemma blocks_sorted:
  assumes "chain None segs" "ascending segs" "\<forall>s\<in>set segs. wellformed s"
  shows "sorted (map (\<lambda>b. cell (ibStartIP b)) (concat (map (blocksOf P) segs)))"
    and "\<forall>b\<in>set (concat (map (blocksOf P) segs)). cell (ibEndIP b) = cell (ibStartIP b)"
proof -
  have wf: "\<forall>s\<in>set segs. StartIP s \<le> EndIP s" using assms(3) by (simp add: wellformed_def)
  have "map (\<lambda>b. cell (ibStartIP b)) (concat (map (blocksOf P) segs))
      = concat (map (\<lambda>seg. map (\<lambda>b. cell (ibStartIP b)) (blocksOf P seg)) segs)"
    by (simp add: map_concat comp_def)
  also have "\<dots> = concat (map (\<lambda>seg. [cell (StartIP seg)..<Suc (cell (EndIP seg))]) segs)"
  proof -
    have "map (\<lambda>b. cell (ibStartIP b)) (blocksOf P seg) = [cell (StartIP seg)..<Suc (cell (EndIP seg))]"
      if "seg \<in> set segs" for seg
    proof -
      from that wf have "StartIP seg \<le> EndIP seg" by blast
      then show ?thesis unfolding blocksOf_cells(1) by (rule Split_cells(1))
    qed
    then have "map (\<lambda>seg. map (\<lambda>b. cell (ibStartIP b)) (blocksOf P seg)) segs
        = map (\<lambda>seg. [cell (StartIP seg)..<Suc (cell (EndIP seg))]) segs"
      by (intro map_cong refl)
    then show ?thesis by (rule arg_cong)
  qed
  finally show "sorted (map (\<lambda>b. cell (ibStartIP b)) (concat (map (blocksOf P) segs)))"
    using cells_sorted [OF ordered_from_chain [OF assms(1,2) wf] wf] by simp
  show "\<forall>b\<in>set (concat (map (blocksOf P) segs)). cell (ibEndIP b) = cell (ibStartIP b)"
    using wf blocksOf_cells(2) by auto
qed

lemma touches_cell:
  "touches (viRow ip) (viCol ip) e = (cell (ibStartIP (snd e)) = cell ip)"
  unfolding touches_def by (rule same_cell)

lemma inCellOf_cell:
  "inCellOf ip b = (cell (ibStartIP b) = cell ip \<and> cell (ibEndIP b) = cell ip)"
  unfolding inCellOf_def using same_cell [of "ibStartIP b" ip] same_cell [of "ibEndIP b" ip]
  by blast




subsection \<open>A source that wraps around\<close>

lemma last_filter_last: "xs \<noteq> [] \<Longrightarrow> P (last xs) \<Longrightarrow> last (filter P xs) = last xs"
  by (induction xs rule: rev_induct) simp_all

lemma place_last_snd: "bl \<noteq> [] \<Longrightarrow> snd (last (place off bl)) = last bl"
proof -
  assume ne: "bl \<noteq> []"
  then have "last (map snd (place off bl)) = snd (last (place off bl))"
    by (intro last_map) simp
  then show ?thesis by simp
qed

lemma wrapSource_Init:
  "Init 0 (NewMaker 0 wrapSource) = (None, snd (Init 0 (NewMaker 0 wrapSource)))"
  "segments (snd (Init 0 (NewMaker 0 wrapSource))) =
     [\<lparr>StartIP = 4294967295, EndIP = 4294967295, Region = ''A''\<rparr>,
      \<lparr>StartIP = 0, EndIP = 4294967294, Region = ''B''\<rparr>]"
proof -
  have "fst (Init 0 (NewMaker 0 wrapSource)) = None"
    by (simp add: wrapSource_def load_defs)
  then show "Init 0 (NewMaker 0 wrapSource) = (None, snd (Init 0 (NewMaker 0 wrapSource)))"
    by (metis prod.collapse)
  show "segments (snd (Init 0 (NewMaker 0 wrapSource))) =
     [\<lparr>StartIP = 4294967295, EndIP = 4294967295, Region = ''A''\<rparr>,
      \<lparr>StartIP = 0, EndIP = 4294967294, Region = ''B''\<rparr>]"
    by (simp add: wrapSource_def load_defs)
qed

lemma wrapSource_Start:
  "Start 12 (snd (Init 0 (NewMaker 0 wrapSource)))
     = (None, snd (Start 12 (snd (Init 0 (NewMaker 0 wrapSource)))))"
proof -
  have "\<exists>m' c3. Start 12 (snd (Init 0 (NewMaker 0 wrapSource))) = (None, m') \<and> True"
    using Start_ok [of "snd (Init 0 (NewMaker 0 wrapSource))" 12]
    unfolding wrapSource_Init(2) by simp blast
  then show ?thesis by auto
qed

lemma wrap_blocks:
  fixes P :: "string \<rightharpoonup> uint32"
  assumes "P ''A'' = Some 524544" "P ''B'' = Some 524545"
  shows "blocksOf P \<lparr>StartIP = 4294967295, EndIP = 4294967295, Region = ''A''\<rparr>
      = [\<lparr>ibStartIP = 4294967295, ibEndIP = 4294967295, DataLen = 1, DataPtr = 524544\<rparr>]"
    and "length (blocksOf P \<lparr>StartIP = 0, EndIP = 4294967294, Region = ''B''\<rparr>) = 65536"
    and "hd (blocksOf P \<lparr>StartIP = 0, EndIP = 4294967294, Region = ''B''\<rparr>)
      = \<lparr>ibStartIP = 0, ibEndIP = 65535, DataLen = 1, DataPtr = 524545\<rparr>"
    and "last (blocksOf P \<lparr>StartIP = 0, EndIP = 4294967294, Region = ''B''\<rparr>)
      = \<lparr>ibStartIP = 4294901760, ibEndIP = 4294967294, DataLen = 1, DataPtr = 524545\<rparr>"
proof -
  have c: "cell 4294967295 = 65535" "cell 0 = 0" "cell 4294967294 = 65535"
    by (simp_all add: cell_def)
  have single: "[65535..<Suc 65535] = [65535 :: nat]" by (simp only: upt_Suc_append upt_conv_Nil) simp
  show "blocksOf P \<lparr>StartIP = 4294967295, EndIP = 4294967295, Region = ''A''\<rparr>
      = [\<lparr>ibStartIP = 4294967295, ibEndIP = 4294967295, DataLen = 1, DataPtr = 524544\<rparr>]"
    unfolding blocksOf_def Split_def by (simp add: c single assms del: upt_Suc)
  define g where "g = (\<lambda>c :: nat. \<lparr>ibStartIP = (if c = 0 then 0 else of_nat (c * 65536)),
      ibEndIP = (if c = 65535 then 4294967294 else of_nat (c * 65536 + 65535)),
      DataLen = (1 :: uint16), DataPtr = (524545 :: uint32)\<rparr>)"
  have B: "blocksOf P \<lparr>StartIP = 0, EndIP = 4294967294, Region = ''B''\<rparr> = map g [0..<Suc 65535]"
    unfolding blocksOf_def Split_def g_def by (simp add: c assms comp_def del: upt_Suc)
  have ne: "[0..<Suc 65535] \<noteq> []" by (simp del: upt_Suc)
  show "length (blocksOf P \<lparr>StartIP = 0, EndIP = 4294967294, Region = ''B''\<rparr>) = 65536"
    unfolding B by (simp del: upt_Suc)
  have "hd (map g [0..<Suc 65535]) = g (hd [0..<Suc 65535])" using ne by (rule hd_map)
  also have "hd [0..<Suc 65535] = 0" by (rule hd_upt) simp
  finally show "hd (blocksOf P \<lparr>StartIP = 0, EndIP = 4294967294, Region = ''B''\<rparr>)
      = \<lparr>ibStartIP = 0, ibEndIP = 65535, DataLen = 1, DataPtr = 524545\<rparr>"
    unfolding B by (simp add: g_def)
  have "last (map g [0..<Suc 65535]) = g (last [0..<Suc 65535])" using ne by (rule last_map)
  also have "last [0..<Suc 65535] = 65535" by (simp only: upt_Suc_append [of 0 65535] last_snoc)
  finally show "last (blocksOf P \<lparr>StartIP = 0, EndIP = 4294967294, Region = ''B''\<rparr>)
      = \<lparr>ibStartIP = 4294901760, ibEndIP = 4294967294, DataLen = 1, DataPtr = 524545\<rparr>"
    unfolding B by (simp add: g_def)
qed

lemma wrapSource_index:
  defines "mS \<equiv> snd (Start 12 (snd (Init 0 (NewMaker 0 wrapSource))))"
  defines "es \<equiv> indexWrites (writes (dstHandle mS))"
  shows "es \<noteq> []"
    and "hd es = (524546, \<lparr>ibStartIP = 4294967295, ibEndIP = 4294967295, DataLen = 1, DataPtr = 524544\<rparr>)"
    and "(524560, \<lparr>ibStartIP = 0, ibEndIP = 65535, DataLen = 1, DataPtr = 524545\<rparr>) \<in> set es"
    and "last es = (1442050, \<lparr>ibStartIP = 4294901760, ibEndIP = 4294967294, DataLen = 1, DataPtr = 524545\<rparr>)"
    and "\<forall>e\<in>set es. 524546 \<le> fst e \<and> fst e \<le> 1442050"
    and "vectorIndex mS = foldl (gridRecord 12) (\<lambda>i j. \<lparr>FirstPtr = 0, LastPtr = 0\<rparr>) es"
proof -
  define sA where "sA = \<lparr>StartIP = 4294967295, EndIP = 4294967295, Region = ''A''\<rparr>"
  define sB where "sB = \<lparr>StartIP = 0, EndIP = 4294967294, Region = ''B''\<rparr>"
  define P' where "P' = poolAfter Map.empty 524544 [sA, sB]"
  define bA where "bA = \<lparr>ibStartIP = 4294967295, ibEndIP = 4294967295, DataLen = 1, DataPtr = 524544\<rparr>"
  define blB where "blB = blocksOf P' sB"
  have P: "P' ''A'' = Some 524544" "P' ''B'' = Some 524545"
    by (simp_all add: P'_def sA_def sB_def)
  have o1: "offAfter Map.empty 524544 [sA, sB] = 524546"
    by (simp add: sA_def sB_def)
  note W = wrap_blocks [OF P, folded sA_def sB_def bA_def blB_def]
  have neB: "blB \<noteq> []" using W(2) by auto
  have bl: "concat (map (blocksOf P') [sA, sB]) = bA # blB"
    by (simp add: W(1) blB_def)
  have es: "es = (524546, bA) # place 524560 blB"
    unfolding es_def mS_def
    apply (simp only: build_indexWrites [OF wrapSource_Init(1) wrapSource_Start] wrapSource_Init(2))
    apply (simp only: sA_def [symmetric] sB_def [symmetric])
    apply (simp only: P'_def [symmetric] o1 bl place.simps)
    apply simp
    done
  show "es \<noteq> []" by (simp add: es)
  show "hd es = (524546, \<lparr>ibStartIP = 4294967295, ibEndIP = 4294967295, DataLen = 1, DataPtr = 524544\<rparr>)"
    by (simp add: es bA_def)
  obtain b bs' where c: "blB = b # bs'" using neB by (cases blB) auto
  with W(3) have "b = \<lparr>ibStartIP = 0, ibEndIP = 65535, DataLen = 1, DataPtr = 524545\<rparr>" by simp
  then show "(524560, \<lparr>ibStartIP = 0, ibEndIP = 65535, DataLen = 1, DataPtr = 524545\<rparr>) \<in> set es"
    by (simp add: es c)
  have pne: "place 524560 blB \<noteq> []" using neB by simp
  have "last es = last (place 524560 blB)" using pne by (simp add: es)
  moreover have "fst (last (place 524560 blB)) = 1442050"
    using place_last [OF neB, of 524560] by (simp add: W(2))
  moreover have "snd (last (place 524560 blB))
      = \<lparr>ibStartIP = 4294901760, ibEndIP = 4294967294, DataLen = 1, DataPtr = 524545\<rparr>"
    using place_last_snd [OF neB, of 524560] by (simp add: W(4))
  ultimately show "last es = (1442050, \<lparr>ibStartIP = 4294901760, ibEndIP = 4294967294, DataLen = 1, DataPtr = 524545\<rparr>)"
    by (simp add: prod_eq_iff)
  show "\<forall>e\<in>set es. 524546 \<le> fst e \<and> fst e \<le> 1442050"
  proof
    fix e assume "e \<in> set es"
    then consider "e = (524546, bA)" | "e \<in> set (place 524560 blB)" by (auto simp: es)
    then show "524546 \<le> fst e \<and> fst e \<le> 1442050"
    proof cases
      case 1
      then show ?thesis by simp
    next
      case 2
      from place_fst_ge [OF 2] place_fst_le [OF 2] show ?thesis by (simp add: W(2))
    qed
  qed
  show "vectorIndex mS = foldl (gridRecord 12) (\<lambda>i j. \<lparr>FirstPtr = 0, LastPtr = 0\<rparr>) es"
    unfolding es_def mS_def
    by (simp only: build(6) [OF wrapSource_Init(1) wrapSource_Start]
          build_indexWrites [OF wrapSource_Init(1) wrapSource_Start])
qed


end
